theory Spec2Isabelle
  imports Main "HOL-Library.Word" "HOL-Library.Monad_Syntax" "HOL-Library.Multiset"
begin

section \<open>Strings as the watcher uses them\<close>

text \<open>
  Strings are lists of characters; the model reads every string as a sequence of code
  units below 256, so that \<open>length\<close> is JavaScript's \<open>.length\<close>. The white space
  of \<open>trim\<close> and of \<open>\s\<close> in that range is the six ASCII characters and the no-break
  space \<open>U+00A0\<close>.
  The functions below are the methods of \<open>String.prototype\<close> that
  \<open>session-watcher.ts\<close> calls.
\<close>

definition is_ws :: "char \<Rightarrow> bool" where
  "is_ws c = (c \<in> set [CHR 0x09, CHR 0x0A, CHR 0x0B, CHR 0x0C, CHR 0x0D, CHR '' '', CHR 0xA0])"

definition trim :: "string \<Rightarrow> string" where
  "trim s = rev (dropWhile is_ws (rev (dropWhile is_ws s)))"

fun startsWith :: "string \<Rightarrow> string \<Rightarrow> bool" where
  "startsWith s [] = True"
| "startsWith [] (p # ps) = False"
| "startsWith (c # cs) (p # ps) = (c = p \<and> startsWith cs ps)"

definition endsWith :: "string \<Rightarrow> string \<Rightarrow> bool" where
  "endsWith s p = startsWith (rev s) (rev p)"

fun str_includes :: "string \<Rightarrow> string \<Rightarrow> bool" where
  "str_includes [] p = (p = [])"
| "str_includes (c # cs) p = (startsWith (c # cs) p \<or> str_includes cs p)"

text \<open>\<open>content.split('\n')\<close>: the pieces between line feeds; the empty string gives one
  empty piece.\<close>

fun split_nl :: "string \<Rightarrow> string list" where
  "split_nl [] = [[]]"
| "split_nl (c # cs) =
     (if c = CHR 0x0A then [] # split_nl cs
      else (case split_nl cs of [] \<Rightarrow> [[c]] | l # ls \<Rightarrow> (c # l) # ls))"

text \<open>\<open>content.split('\n').filter(line => line.trim())\<close>: the empty string is falsy.\<close>

definition file_lines :: "string \<Rightarrow> string list" where
  "file_lines content = filter (\<lambda>line. trim line \<noteq> []) (split_nl content)"

text \<open>\<open>truncate(text, maxLength)\<close>; every record type of HOL has a \<open>truncate\<close> of its own,
  hence the suffix. For \<open>maxLength < 3\<close> the end of \<open>text.slice(0, maxLength - 3)\<close> is
  negative and counts from the end of the text.\<close>

definition truncate_text :: "string \<Rightarrow> nat \<Rightarrow> string" where
  "truncate_text text maxLength =
     (if length text \<le> maxLength then text
      else (if 3 \<le> maxLength then take (maxLength - 3) text
            else take (length text - (3 - maxLength)) text) @ ''...'')"

section \<open>Parsed JSON\<close>

text \<open>
  What \<open>JSON.parse\<close> returns. \<open>JSON.parse\<close>, \<open>JSON.stringify\<close> and
  \<open>new Date(s).getTime()\<close> belong to the JavaScript runtime, not to the repository:
  the functions that call them take them as the parameters \<open>parse\<close> (with \<open>None\<close>
  for a thrown \<open>SyntaxError\<close>), \<open>stringify\<close> and \<open>getTime\<close>.
\<close>

datatype json =
    JNull
  | JBool bool
  | JNum int
  | JStr string
  | JArr "json list"
  | JObj "(string \<times> json) list"

text \<open>Property access \<open>v.k\<close> on a parsed value; \<open>None\<close> is \<open>undefined\<close>.\<close>

fun jget :: "json \<Rightarrow> string \<Rightarrow> json option" where
  "jget (JObj kvs) k = map_of kvs k"
| "jget _ k = None"

text \<open>JavaScript truthiness of a possibly undefined parsed value.\<close>

fun truthy :: "json option \<Rightarrow> bool" where
  "truthy None = False"
| "truthy (Some JNull) = False"
| "truthy (Some (JBool b)) = b"
| "truthy (Some (JNum n)) = (n \<noteq> 0)"
| "truthy (Some (JStr s)) = (s \<noteq> [])"
| "truthy (Some (JArr xs)) = True"
| "truthy (Some (JObj kvs)) = True"

section \<open>Line validation and fingerprints\<close>

text \<open>\<open>isValidJsonLine\<close>.\<close>

definition isValidJsonLine :: "(string \<Rightarrow> json option) \<Rightarrow> string \<Rightarrow> bool" where
  "isValidJsonLine parse line =
     (let trimmed = trim line in
      if trimmed = [] then False
      else if \<not> startsWith trimmed ''{'' \<or> \<not> endsWith trimmed ''}'' then False
      else (case parse trimmed of None \<Rightarrow> False | Some v \<Rightarrow> True))"

text \<open>Decimal digits of a number, as a template literal prints it.\<close>

fun dec_nat :: "nat \<Rightarrow> string" where
  "dec_nat n =
     (if n < 10 then [char_of (48 + n)]
      else dec_nat (n div 10) @ [char_of (48 + n mod 10)])"

definition dec_int :: "int \<Rightarrow> string" where
  "dec_int i = (if i < 0 then CHR ''-'' # dec_nat (nat (- i)) else dec_nat (nat i))"

text \<open>The fallback of \<open>hashLine\<close>: \<open>hash = ((hash << 5) - hash) + char; hash = hash & hash\<close>
  over the code units, in 32-bit two's complement.\<close>

fun string_hash :: "32 word \<Rightarrow> string \<Rightarrow> 32 word" where
  "string_hash h [] = h"
| "string_hash h (c # cs) = string_hash (push_bit 5 h - h + of_char c) cs"

fun join_comma :: "string list \<Rightarrow> string" where
  "join_comma [] = []"
| "join_comma [s] = s"
| "join_comma (s # t # ss) = s @ '','' @ join_comma (t # ss)"

text \<open>\<open>String(v)\<close> for the values a fingerprint, an identifier or a summary is built
  from. A record's \<open>uuid\<close> and \<open>messageId\<close> are strings by the declared types of
  \<open>shared/src/index.ts\<close>; the other cases follow \<open>ToString\<close>. A number of the
  model is an integer (a parsed number with a fraction has no value in \<open>json\<close>) and is
  printed with all its digits, as JavaScript prints an integer below \<open>10\<^sup>2\<^sup>1\<close>.\<close>

fun to_str :: "json \<Rightarrow> string" where
  "to_str JNull = ''null''"
| "to_str (JBool b) = (if b then ''true'' else ''false'')"
| "to_str (JNum n) = dec_int n"
| "to_str (JStr s) = s"
| "to_str (JArr xs) =
     join_comma (map (\<lambda>x. case x of JNull \<Rightarrow> [] | _ \<Rightarrow> to_str x) xs)"
| "to_str (JObj kvs) = ''[object Object]''"

definition hashLine :: "(string \<Rightarrow> json option) \<Rightarrow> string \<Rightarrow> string" where
  "hashLine parse line =
     (let fallback = ''hash-'' @ dec_int (sint (string_hash 0 line)) in
      case parse line of
        None \<Rightarrow> fallback
      | Some parsed \<Rightarrow>
          (case parsed of
             JNull \<Rightarrow> fallback
           | _ \<Rightarrow>
             if truthy (jget parsed ''uuid'') then to_str (the (jget parsed ''uuid''))
             else if truthy (jget parsed ''messageId'')
                  then ''snapshot-'' @ to_str (the (jget parsed ''messageId''))
             else fallback))"

section \<open>Nodes\<close>

datatype node_type =
  User | Assistant | Thinking | Tool_call | Tool_result | Agent | Skill | Command | System

text \<open>
  \<open>ConversationNode\<close> without its \<open>children\<close> array: the array is the one field
  the watcher mutates after a node is made, and it lives in the store of the registry
  below. A string \<open>content\<close> is \<open>JStr\<close>; an absent optional field is \<open>None\<close>.
  \<open>timestamp\<close> is the value the record has under \<open>timestamp\<close>, copied unchecked
  (\<open>None\<close> when the record has none). \<open>parentId\<close> is the parent identifier when it is
  a string: the identifiers of the registry are strings, and every use of \<open>parentId\<close>
  (its truthiness, \<open>nodeMap.has\<close>, \<open>r.parentId === tool.id\<close>) treats any other value
  as it treats null.
\<close>

record node =
  nid :: string
  parentId :: "string option"
  timestamp :: "json option"
  ntype :: node_type
  summary :: string
  content :: json
  toolName :: "json option"
  toolInput :: "json option"
  toolResult :: "json option"
  agentType :: "string option"
  skillName :: "string option"
  commandName :: "string option"
  raw :: json

text \<open>
  \<open>entry.uuid\<close> as the identifier of a user node. By the declared type
  (\<open>BaseMessageEntry\<close> in \<open>shared/src/index.ts\<close>) it is a string; a record whose
  \<open>uuid\<close> is not a string is outside the model and gives no user node.
\<close>

definition uuid_of :: "json \<Rightarrow> string option" where
  "uuid_of entry = (case jget entry ''uuid'' of Some (JStr u) \<Rightarrow> Some u | _ \<Rightarrow> None)"

text \<open>\<open>entry.parentUuid\<close> as a \<open>parentId\<close>.\<close>

definition parent_of :: "json \<Rightarrow> string option" where
  "parent_of entry = (case jget entry ''parentUuid'' of Some (JStr p) \<Rightarrow> Some p | _ \<Rightarrow> None)"

text \<open>\<open>`${v}`\<close> in a template literal.\<close>

definition tmpl :: "json option \<Rightarrow> string" where
  "tmpl v = (case v of None \<Rightarrow> ''undefined'' | Some j \<Rightarrow> to_str j)"

text \<open>\<open>a || b\<close> on possibly undefined values.\<close>

definition jor :: "json option \<Rightarrow> json option \<Rightarrow> json option" where
  "jor a b = (if truthy a then a else b)"

text \<open>\<open>v.k\<close> where \<open>v\<close> may be undefined or null: \<open>None\<close> is the thrown
  \<open>TypeError\<close>, \<open>Some None\<close> the value \<open>undefined\<close>.\<close>

definition jprop :: "json option \<Rightarrow> string \<Rightarrow> json option option" where
  "jprop v k =
     (case v of None \<Rightarrow> None | Some JNull \<Rightarrow> None | Some j \<Rightarrow> Some (jget j k))"

text \<open>\<open>truncate\<close> applied to a field that the declared types make a string; any other
  value is outside the model (for most of them \<open>text.slice\<close> throws).\<close>

definition truncate_field :: "json option \<Rightarrow> nat \<Rightarrow> string option" where
  "truncate_field v n = (case v of Some (JStr s) \<Rightarrow> Some (truncate_text s n) | _ \<Rightarrow> None)"

section \<open>The boilerplate filter\<close>

text \<open>
  \<open>content.match(/<tag>([^<]+)<\/tag>/)\<close> and, with \<open>allow_empty\<close>, the same with
  \<open>[^<]*\<close>: at the leftmost position where \<open>opening\<close> starts, the run of characters
  other than \<open><\<close> must be followed by \<open>closing\<close>; the result is the captured run.
\<close>

fun match_between :: "string \<Rightarrow> string \<Rightarrow> bool \<Rightarrow> string \<Rightarrow> string option" where
  "match_between opening closing allow_empty [] = None"
| "match_between opening closing allow_empty (c # cs) =
     (let rest = drop (length opening) (c # cs);
          body = takeWhile (\<lambda>x. x \<noteq> CHR ''<'') rest;
          after = dropWhile (\<lambda>x. x \<noteq> CHR ''<'') rest
      in if startsWith (c # cs) opening \<and> (body \<noteq> [] \<or> allow_empty) \<and> startsWith after closing
         then Some body
         else match_between opening closing allow_empty cs)"

definition is_line_end :: "char \<Rightarrow> bool" where
  "is_line_end c = (c = CHR 0x0A \<or> c = CHR 0x0D)"

text \<open>
  \<open>text.match(/^#\s+(.+)$/m)?.[1]\<close>. After \<open>#\<close> at a line start, \<open>\s+\<close> takes the
  whole run of white space and gives characters back one at a time until \<open>(.+)\<close>, the
  longest run without a line end, is not empty. \<open>heading_capture k rest\<close> tries
  \<open>k, k - 1, ..., 1\<close> characters of white space.
\<close>

fun heading_capture :: "nat \<Rightarrow> string \<Rightarrow> string option" where
  "heading_capture 0 rest = None"
| "heading_capture (Suc k) rest =
     (let cap = takeWhile (\<lambda>x. \<not> is_line_end x) (drop (Suc k) rest)
      in if cap \<noteq> [] then Some cap else heading_capture k rest)"

fun match_heading :: "bool \<Rightarrow> string \<Rightarrow> string option" where
  "match_heading at_start [] = None"
| "match_heading at_start (c # cs) =
     (let here = (if at_start \<and> c = CHR ''#''
                  then heading_capture (length (takeWhile is_ws cs)) cs else None)
      in case here of
           Some cap \<Rightarrow> Some cap
         | None \<Rightarrow> match_heading (is_line_end c) cs)"

definition caveat :: string where
  "caveat = ''Caveat: The messages below were generated by the user''"

record system_info =
  isSystem :: bool
  sys_summary :: string
  skip :: bool

text \<open>The prefix that \<open>detectSystemMessage\<close> takes for a serialised array of text
  segments.\<close>

definition text_array_prefix :: string where
  \<open>text_array_prefix = ''[{"type":"text"''\<close>

text \<open>The summary of a skill prompt: the first heading if there is one, else the first
  line that is neither blank nor a heading.\<close>

definition skill_summary :: "string \<Rightarrow> string" where
  "skill_summary text =
     (let firstLine =
            (case find (\<lambda>l. trim l \<noteq> [] \<and> \<not> startsWith l ''#'') (split_nl text) of
               Some l \<Rightarrow> if trim l \<noteq> [] then trim l else ''Skill prompt''
             | None \<Rightarrow> ''Skill prompt'');
          title =
            (case match_heading True text of
               Some cap \<Rightarrow> if cap \<noteq> [] then cap else firstLine
             | None \<Rightarrow> firstLine)
      in ''Skill: '' @ truncate_text title 60)"

text \<open>The body of the \<open>try\<close> in \<open>detectSystemMessage\<close>; \<open>None\<close> when the branch
  falls through, also by an exception that the \<open>catch\<close> swallows.\<close>

definition skill_prompt :: "(string \<Rightarrow> json option) \<Rightarrow> string \<Rightarrow> system_info option" where
  "skill_prompt parse body =
     (case parse body of
        Some (JArr (first # rest)) \<Rightarrow>
          if jget first ''type'' = Some (JStr ''text'') then
            (case jor (jget first ''text'') (Some (JStr [])) of
               Some (JStr text) \<Rightarrow>
                 if str_includes text caveat
                 then Some \<lparr>isSystem = True, sys_summary = [], skip = True\<rparr>
                 else Some \<lparr>isSystem = True, sys_summary = skill_summary text, skip = False\<rparr>
             | Some (JArr xs) \<Rightarrow>
                 if JStr caveat \<in> set xs
                 then Some \<lparr>isSystem = True, sys_summary = [], skip = True\<rparr>
                 else None
             | _ \<Rightarrow> None)
          else None
      | _ \<Rightarrow> None)"

definition detectSystemMessage :: "(string \<Rightarrow> json option) \<Rightarrow> string \<Rightarrow> system_info" where
  "detectSystemMessage parse body =
     (let cmdName =
            (case match_between ''<command-name>'' ''</command-name>'' False body of
               Some m \<Rightarrow> m | None \<Rightarrow> ''command'');
          args =
            (case match_between ''<command-args>'' ''</command-args>'' True body of
               Some m \<Rightarrow> m | None \<Rightarrow> [])
      in
      if str_includes body ''<command-name>'' \<and> str_includes body ''<command-message>''
      then \<lparr>isSystem = True, sys_summary = ''Command: '' @ cmdName, skip = False\<rparr>
      else if str_includes body ''<local-command-stdout>''
      then \<lparr>isSystem = True, sys_summary = [], skip = True\<rparr>
      else if str_includes body ''<command-message>'' \<and> str_includes body ''is running''
      then \<lparr>isSystem = True,
            sys_summary = ''Running: '' @ cmdName @ (if args \<noteq> [] then '' '' @ args else []),
            skip = False\<rparr>
      else
        (case (if startsWith body text_array_prefix
               then skill_prompt parse body else None) of
           Some info \<Rightarrow> info
         | None \<Rightarrow>
             if str_includes body caveat
             then \<lparr>isSystem = True, sys_summary = [], skip = True\<rparr>
             else \<lparr>isSystem = False, sys_summary = [], skip = False\<rparr>))"

section \<open>The record classifier\<close>

definition getToolResultSummary :: "(json \<Rightarrow> string) \<Rightarrow> json \<Rightarrow> json option \<Rightarrow> string" where
  "getToolResultSummary stringify c isError =
     (let contentStr = (case c of JStr s \<Rightarrow> s | _ \<Rightarrow> stringify c) in
      if truthy isError then ''Error: '' @ truncate_text contentStr 80
      else
        let ls = filter (\<lambda>l. trim l \<noteq> []) (split_nl contentStr) in
        if length ls > 3 then dec_nat (length ls) @ '' lines of output''
        else truncate_text (map (\<lambda>ch. if ch = CHR 0x0A then CHR '' '' else ch) contentStr) 100)"

text \<open>\<open>createUserNode\<close>, in three parts: the node of a tool result, built from the first
  item of the content array; the node of a regular user message, after the boilerplate
  filter; and the test that chooses between them.\<close>

definition tool_result_node ::
  "(json \<Rightarrow> string) \<Rightarrow> json \<Rightarrow> string \<Rightarrow> (string \<times> json) list \<Rightarrow> node" where
  "tool_result_node stringify entry u toolResultItem =
     (let resultContent = the (jor (map_of toolResultItem ''content'') (Some (JStr [])));
          isError = map_of toolResultItem ''is_error'';
          toolNodeId = tmpl (jget entry ''parentUuid'') @ ''-tool-'' @
                       tmpl (map_of toolResultItem ''tool_use_id'')
      in \<lparr>nid = u, parentId = Some toolNodeId, timestamp = jget entry ''timestamp'',
           ntype = Tool_result,
           summary = getToolResultSummary stringify resultContent isError,
           content = resultContent, toolName = None, toolInput = None,
           toolResult = Some (JObj (if truthy isError
                                    then [(''stderr'', resultContent)]
                                    else [(''stdout'', resultContent)])),
           agentType = None, skillName = None, commandName = None, raw = entry\<rparr>)"

definition regular_user_node ::
  "(string \<Rightarrow> json option) \<Rightarrow> (json \<Rightarrow> string) \<Rightarrow> json \<Rightarrow> string \<Rightarrow> json option
     \<Rightarrow> node option" where
  "regular_user_node parse stringify entry u messageContent = do {
     c \<leftarrow> (case messageContent of
             None \<Rightarrow> None
           | Some (JStr s) \<Rightarrow> Some s
           | Some v \<Rightarrow> Some (stringify v));
     let systemInfo = detectSystemMessage parse c;
     if skip systemInfo then None
     else Some \<lparr>nid = u, parentId = parent_of entry, timestamp = jget entry ''timestamp'',
                ntype = (if isSystem systemInfo then System else User),
                summary = (if isSystem systemInfo then sys_summary systemInfo
                           else truncate_text c 100),
                content = JStr c, toolName = None, toolInput = None, toolResult = None,
                agentType = None, skillName = None, commandName = None, raw = entry\<rparr> }"

text \<open>The first item of a non-empty content array, when it is an object whose \<open>type\<close> is
  \<open>tool_result\<close>.\<close>

definition first_tool_result :: "json option \<Rightarrow> (string \<times> json) list option" where
  "first_tool_result messageContent =
     (case messageContent of
        Some (JArr (JObj firstItem # rest)) \<Rightarrow>
          if map_of firstItem ''type'' = Some (JStr ''tool_result'') then Some firstItem else None
      | _ \<Rightarrow> None)"

definition createUserNode ::
  "(string \<Rightarrow> json option) \<Rightarrow> (json \<Rightarrow> string) \<Rightarrow> json \<Rightarrow> node option" where
  "createUserNode parse stringify entry = do {
     u \<leftarrow> uuid_of entry;
     messageContent \<leftarrow> jprop (jget entry ''message'') ''content'';
     case first_tool_result messageContent of
       Some toolResultItem \<Rightarrow> Some (tool_result_node stringify entry u toolResultItem)
     | None \<Rightarrow> regular_user_node parse stringify entry u messageContent }"

text \<open>\<open>String(input.k || dflt)\<close>; \<open>None\<close> when \<open>input\<close> is undefined or null.\<close>

definition input_str :: "json option \<Rightarrow> string \<Rightarrow> string \<Rightarrow> string option" where
  "input_str input k dflt = do {
     v \<leftarrow> jprop input k;
     Some (tmpl (jor v (Some (JStr dflt)))) }"

text \<open>\<open>String(input.description || input.prompt || '')\<close>.\<close>

definition input_description :: "json option \<Rightarrow> string option" where
  "input_description input = do {
     d \<leftarrow> jprop input ''description'';
     p \<leftarrow> (if truthy d then Some None else jprop input ''prompt'');
     Some (tmpl (jor (jor d p) (Some (JStr [])))) }"

definition getToolSummary :: "(json \<Rightarrow> string) \<Rightarrow> json \<Rightarrow> string option" where
  "getToolSummary stringify block =
     (let input = jget block ''input''; name = jget block ''name'' in
      if name = Some (JStr ''Bash'') then map_option (\<lambda>s. truncate_text s 60) (input_str input ''command'' [])
      else if name = Some (JStr ''Read'') then map_option (\<lambda>s. truncate_text s 60) (input_str input ''file_path'' [])
      else if name = Some (JStr ''Write'') then map_option (\<lambda>s. truncate_text s 60) (input_str input ''file_path'' [])
      else if name = Some (JStr ''Edit'') then map_option (\<lambda>s. truncate_text s 60) (input_str input ''file_path'' [])
      else if name = Some (JStr ''Glob'') then map_option (\<lambda>s. truncate_text s 60) (input_str input ''pattern'' [])
      else if name = Some (JStr ''Grep'') then map_option (\<lambda>s. truncate_text s 60) (input_str input ''pattern'' [])
      else if name = Some (JStr ''Task'') then map_option (\<lambda>s. truncate_text s 60) (input_description input)
      else if name = Some (JStr ''TodoWrite'') then Some ''Updating todo list''
      else map_option (\<lambda>v. truncate_text (stringify v) 60) input)"

definition createToolNode :: "(json \<Rightarrow> string) \<Rightarrow> json \<Rightarrow> json \<Rightarrow> node option" where
  "createToolNode stringify entry block =
     (let input = jget block ''input'';
          name = jget block ''name'';
          base = \<lparr>nid = tmpl (jget entry ''uuid'') @ ''-tool-'' @ tmpl (jget block ''id''),
                  parentId = parent_of entry, timestamp = jget entry ''timestamp'',
                  ntype = Tool_call, summary = [], content = block,
                  toolName = name, toolInput = input, toolResult = None,
                  agentType = None, skillName = None, commandName = None, raw = entry\<rparr>
      in
      if name = Some (JStr ''Task'') then do {
        agent \<leftarrow> input_str input ''subagent_type'' ''unknown'';
        description \<leftarrow> input_description input;
        Some (base\<lparr>ntype := Agent, summary := truncate_text description 80,
                    toolResult := jget entry ''toolUseResult'', agentType := Some agent\<rparr>) }
      else if name = Some (JStr ''Skill'') then do {
        sk \<leftarrow> input_str input ''skill'' ''unknown'';
        Some (base\<lparr>ntype := Skill, summary := sk, skillName := Some sk\<rparr>) }
      else if name = Some (JStr ''SlashCommand'') then do {
        cmd \<leftarrow> input_str input ''command'' ''unknown'';
        Some (base\<lparr>ntype := Command, summary := cmd, commandName := Some cmd\<rparr>) }
      else do {
        s \<leftarrow> getToolSummary stringify block;
        Some (base\<lparr>summary := tmpl name @ '': '' @ s,
                    toolResult := jget entry ''toolUseResult''\<rparr>) })"

text \<open>One round of the loop over \<open>message.content\<close> in \<open>createAssistantNodes\<close>: the
  outer \<open>None\<close> is an exception, the inner one a segment that gives no node.\<close>

definition block_node :: "(json \<Rightarrow> string) \<Rightarrow> json \<Rightarrow> json \<Rightarrow> node option option" where
  "block_node stringify entry block = do {
     t \<leftarrow> jprop (Some block) ''type'';
     let base = \<lparr>nid = [], parentId = parent_of entry, timestamp = jget entry ''timestamp'',
                 ntype = Thinking, summary = [], content = block,
                 toolName = None, toolInput = None, toolResult = None,
                 agentType = None, skillName = None, commandName = None, raw = entry\<rparr>;
     if t = Some (JStr ''thinking'') then do {
       s \<leftarrow> truncate_field (jget block ''thinking'') 100;
       Some (Some (base\<lparr>nid := tmpl (jget entry ''uuid'') @ ''-thinking'', ntype := Thinking, summary := s\<rparr>)) }
     else if t = Some (JStr ''text'') then do {
       s \<leftarrow> truncate_field (jget block ''text'') 100;
       Some (Some (base\<lparr>nid := tmpl (jget entry ''uuid'') @ ''-text'', ntype := Assistant, summary := s\<rparr>)) }
     else if t = Some (JStr ''tool_use'') then
       map_option Some (createToolNode stringify entry block)
     else Some None }"

fun block_nodes :: "(json \<Rightarrow> string) \<Rightarrow> json \<Rightarrow> json list \<Rightarrow> node list option" where
  "block_nodes stringify entry [] = Some []"
| "block_nodes stringify entry (block # blocks) = do {
     n \<leftarrow> block_node stringify entry block;
     ns \<leftarrow> block_nodes stringify entry blocks;
     Some (case n of None \<Rightarrow> ns | Some x \<Rightarrow> x # ns) }"

definition createAssistantNodes :: "(json \<Rightarrow> string) \<Rightarrow> json \<Rightarrow> node list option" where
  "createAssistantNodes stringify entry = do {
     c \<leftarrow> jprop (jget entry ''message'') ''content'';
     case c of
       Some (JArr blocks) \<Rightarrow> block_nodes stringify entry blocks
     | _ \<Rightarrow> Some [] }"

section \<open>The registry and the children store\<close>

text \<open>
  \<open>this.nodes\<close> is a \<open>Map\<close> from identifier to node object, iterated in insertion
  order: a list of nodes, where \<open>nodes.set\<close> overwrites the entry of an identifier that
  is present, in its place, and appends otherwise. The \<open>children\<close> arrays are the mutable
  part of the node objects; since the registry holds one object per identifier, the
  store maps the identifier of a registered object to its \<open>children\<close> array. An array
  holds references to registered objects, written as the nodes themselves.
\<close>

type_synonym store = "string \<Rightarrow> node list"

record watcher =
  nodes :: "node list"
  kids :: store
  lastLineCount :: nat
  processedLines :: "string set"

definition init_watcher :: watcher where
  "init_watcher = \<lparr>nodes = [], kids = (\<lambda>i. []), lastLineCount = 0, processedLines = {}\<rparr>"

fun set_node :: "node \<Rightarrow> node list \<Rightarrow> node list" where
  "set_node n [] = [n]"
| "set_node n (m # ms) = (if nid m = nid n then n # ms else m # set_node n ms)"

text \<open>\<open>this.nodes.set(node.id, node)\<close> with a node object fresh from the classifier,
  whose \<open>children\<close> array is empty.\<close>

definition upsert :: "node \<Rightarrow> watcher \<Rightarrow> watcher" where
  "upsert n w = w\<lparr>nodes := set_node n (nodes w), kids := (kids w)(nid n := [])\<rparr>"

definition processLine ::
  "(string \<Rightarrow> json option) \<Rightarrow> (json \<Rightarrow> string) \<Rightarrow> string \<Rightarrow> watcher \<Rightarrow> watcher \<times> node option" where
  "processLine parse stringify line w =
     (case parse line of
        Some (JObj kvs) \<Rightarrow>
          let entry = JObj kvs; t = map_of kvs ''type'' in
          if t = Some (JStr ''file-history-snapshot'') then (w, None)
          else if t = Some (JStr ''user'') then
            (case createUserNode parse stringify entry of
               None \<Rightarrow> (w, None)
             | Some n \<Rightarrow> (upsert n w, Some n))
          else if t = Some (JStr ''assistant'') then
            (case createAssistantNodes stringify entry of
               None \<Rightarrow> (w, None)
             | Some ns \<Rightarrow> (fold upsert ns w, (case ns of [] \<Rightarrow> None | n # _ \<Rightarrow> Some n)))
          else (w, None)
      | _ \<Rightarrow> (w, None))"

section \<open>The tree reconstructor\<close>

text \<open>
  \<open>sortByTimestamp\<close>. \<open>getTime v\<close> is \<open>new Date(v).getTime()\<close> for a timestamp value
  \<open>v\<close> that gives a time. The model covers the registries whose timestamps all give a
  time: for a timestamp that does not, \<open>getTime\<close> is \<open>NaN\<close> in the code, the
  comparator returns \<open>NaN\<close>, the order that \<open>Array.prototype.sort\<close> leaves is the
  runtime's, and the tests of a turn's window are all false; none of this is in the
  model. On times, \<open>Array.prototype.sort\<close> is stable, and so is \<open>sort_key\<close>.
\<close>

definition sortByTimestamp :: "(json option \<Rightarrow> int) \<Rightarrow> node list \<Rightarrow> node list" where
  "sortByTimestamp getTime ns = sort_key (\<lambda>n. getTime (timestamp n)) ns"

text \<open>
  \<open>flattenTree\<close>: the nodes of a forest in preorder. The recursion of the source follows
  the \<open>children\<close> arrays and has no bound of its own; \<open>fuel\<close> bounds its depth, and
  \<open>None\<close> is a recursion that went deeper.
\<close>

fun flatten :: "nat \<Rightarrow> store \<Rightarrow> node list \<Rightarrow> node list option" where
  "flatten fuel k [] = Some []"
| "flatten 0 k (n # ns) = None"
| "flatten (Suc fuel) k (n # ns) = do {
     sub \<leftarrow> (if k (nid n) \<noteq> [] then flatten fuel k (k (nid n)) else Some []);
     rest \<leftarrow> flatten (Suc fuel) k ns;
     Some (n # sub @ rest) }"

record rstate =
  usedNodes :: "string set"
  newRoots :: "node list"
  ch :: store

text \<open>The three loops that hang nodes under the primary response of a turn, and the
  loop of the branch without a response.\<close>

definition add_child :: "node \<Rightarrow> node \<Rightarrow> rstate \<Rightarrow> rstate" where
  "add_child ai n s =
     (if nid n \<notin> usedNodes s
      then s\<lparr>usedNodes := insert (nid n) (usedNodes s),
             ch := (ch s)(nid ai := ch s (nid ai) @ [n])\<rparr>
      else s)"

definition attach_results :: "node list \<Rightarrow> node \<Rightarrow> rstate \<Rightarrow> rstate" where
  "attach_results toolResults tool s =
     (let matchingResults =
            filter (\<lambda>r. parentId r = Some (nid tool) \<and> nid r \<notin> usedNodes s) toolResults
      in s\<lparr>usedNodes := usedNodes s \<union> set (map nid matchingResults),
            ch := (ch s)(nid tool := ch s (nid tool) @ matchingResults)\<rparr>)"

definition add_tool :: "node \<Rightarrow> node list \<Rightarrow> node \<Rightarrow> rstate \<Rightarrow> rstate" where
  "add_tool ai toolResults tool s =
     (if nid tool \<notin> usedNodes s
      then let s1 = attach_results toolResults tool (s\<lparr>usedNodes := insert (nid tool) (usedNodes s)\<rparr>)
           in s1\<lparr>ch := (ch s1)(nid ai := ch s1 (nid ai) @ [tool])\<rparr>
      else s)"

definition add_root :: "node list \<Rightarrow> node \<Rightarrow> rstate \<Rightarrow> rstate" where
  "add_root toolResults n s =
     (if ntype n \<noteq> Tool_result \<and> nid n \<notin> usedNodes s
      then let s1 = attach_results toolResults n (s\<lparr>usedNodes := insert (nid n) (usedNodes s)\<rparr>)
           in s1\<lparr>newRoots := newRoots s1 @ [n]\<rparr>
      else s)"

definition is_tool_family :: "node \<Rightarrow> bool" where
  "is_tool_family n =
     (ntype n = Tool_call \<or> ntype n = Agent \<or> ntype n = Skill \<or> ntype n = Command)"

text \<open>One round of the loop over \<open>turnStarters\<close>.\<close>

definition turn ::
  "(json option \<Rightarrow> int) \<Rightarrow> node list \<Rightarrow> node \<Rightarrow> node option \<Rightarrow> rstate \<Rightarrow> rstate" where
  "turn getTime allNodes turnStart nextTurnStart s0 =
     (let s = s0\<lparr>usedNodes := insert (nid turnStart) (usedNodes s0)\<rparr>;
          turnNodes = filter (\<lambda>n.
              n \<noteq> turnStart \<and> nid n \<notin> usedNodes s \<and>
              getTime (timestamp n) > getTime (timestamp turnStart) \<and>
              (case nextTurnStart of
                 None \<Rightarrow> True
               | Some nx \<Rightarrow> getTime (timestamp n) < getTime (timestamp nx))) allNodes;
          s = s\<lparr>newRoots := newRoots s @ [turnStart]\<rparr>;
          aiTextResponses = filter (\<lambda>n. ntype n = Assistant) turnNodes
      in
      if aiTextResponses \<noteq> [] then
        let aiTextResponse = last aiTextResponses;
            s = s\<lparr>usedNodes := insert (nid aiTextResponse) (usedNodes s)\<rparr>;
            toolCalls = filter is_tool_family turnNodes;
            toolResults = filter (\<lambda>n. ntype n = Tool_result) turnNodes;
            thinkingNodes = filter (\<lambda>n. ntype n = Thinking) turnNodes;
            otherAiResponses = filter (\<lambda>n. n \<noteq> aiTextResponse) aiTextResponses;
            s = fold (add_child aiTextResponse) thinkingNodes s;
            s = fold (add_tool aiTextResponse toolResults) toolCalls s;
            s = fold (add_child aiTextResponse) otherAiResponses s;
            s = s\<lparr>ch := (ch s)(nid aiTextResponse :=
                       sortByTimestamp getTime (ch s (nid aiTextResponse)))\<rparr>
        in s\<lparr>newRoots := newRoots s @ [aiTextResponse]\<rparr>
      else
        let toolResults = filter (\<lambda>n. ntype n = Tool_result) turnNodes
        in fold (add_root toolResults) turnNodes s)"

fun turns :: "(json option \<Rightarrow> int) \<Rightarrow> node list \<Rightarrow> node list \<Rightarrow> rstate \<Rightarrow> rstate" where
  "turns getTime allNodes [] s = s"
| "turns getTime allNodes (t # rest) s =
     turns getTime allNodes rest
       (turn getTime allNodes t (case rest of [] \<Rightarrow> None | nx # _ \<Rightarrow> Some nx) s)"

definition reset_children :: "node list \<Rightarrow> store \<Rightarrow> store" where
  "reset_children ns k = fold (\<lambda>n k. k(nid n := [])) ns k"

definition reorganizeForDisplay ::
  "nat \<Rightarrow> (json option \<Rightarrow> int) \<Rightarrow> node list \<Rightarrow> store \<Rightarrow> (node list \<times> store) option" where
  "reorganizeForDisplay fuel getTime rootNodes k = do {
     flat \<leftarrow> flatten fuel k rootNodes;
     if flat = [] then Some (rootNodes, k)
     else
       let k1 = reset_children flat k;
           allNodes = sortByTimestamp getTime flat;
           turnStarters = filter (\<lambda>n. ntype n = User \<or> ntype n = System) allNodes
       in if turnStarters = [] then Some (rootNodes, k1)
          else let s = turns getTime allNodes turnStarters
                         \<lparr>usedNodes = {}, newRoots = [], ch = k1\<rparr>
               in Some (newRoots s, ch s) }"

text \<open>The second loop of \<open>buildTree\<close>: a node whose \<open>parentId\<close> is truthy and registered
  goes to its parent's \<open>children\<close>, any other node to \<open>rootNodes\<close>.\<close>

definition link_node :: "node list \<Rightarrow> node \<Rightarrow> store \<times> node list \<Rightarrow> store \<times> node list" where
  "link_node nodeArray n acc =
     (case acc of (k, rootNodes) \<Rightarrow>
        (case parentId n of
           Some p \<Rightarrow>
             if p \<noteq> [] \<and> p \<in> set (map nid nodeArray)
             then (k(p := k p @ [n]), rootNodes)
             else (k, rootNodes @ [n])
         | None \<Rightarrow> (k, rootNodes @ [n])))"

text \<open>\<open>buildTree\<close> returns the array of root objects; the \<open>children\<close> arrays it has
  rebuilt are in the store of the watcher it leaves. The depth of a forest over the
  registry is at most the number of registered nodes, which is the fuel.\<close>

definition buildTree :: "(json option \<Rightarrow> int) \<Rightarrow> watcher \<Rightarrow> (node list \<times> watcher) option" where
  "buildTree getTime w =
     (let nodeArray = nodes w;
          k0 = reset_children nodeArray (kids w);
          (k1, rootNodes) = fold (link_node nodeArray) nodeArray (k0, []);
          rootNodes = sortByTimestamp getTime rootNodes;
          k2 = fold (\<lambda>n k. k(nid n := sortByTimestamp getTime (k (nid n)))) nodeArray k1
      in do {
        (roots, k3) \<leftarrow> reorganizeForDisplay (length nodeArray) getTime rootNodes k2;
        Some (roots, w\<lparr>kids := k3\<rparr>) })"

text \<open>The tree a consumer sees when it walks the returned roots through the
  \<open>children\<close> arrays, as the transport does when it serialises a snapshot.\<close>

datatype tree = Tree (node_of: node) (children: "tree list")

fun resolve :: "nat \<Rightarrow> store \<Rightarrow> node list \<Rightarrow> tree list option" where
  "resolve fuel k [] = Some []"
| "resolve 0 k (n # ns) = None"
| "resolve (Suc fuel) k (n # ns) = do {
     cs \<leftarrow> resolve fuel k (k (nid n));
     rest \<leftarrow> resolve (Suc fuel) k ns;
     Some (Tree n cs # rest) }"

fun tree_ids :: "tree \<Rightarrow> string list" where
  "tree_ids (Tree n cs) = nid n # concat (map tree_ids cs)"

text \<open>\<open>getNodes\<close>, the snapshot operation: the tree, and the watcher with the rebuilt
  \<open>children\<close> arrays.\<close>

definition getNodes :: "(json option \<Rightarrow> int) \<Rightarrow> watcher \<Rightarrow> (tree list \<times> watcher) option" where
  "getNodes getTime w = do {
     (roots, w1) \<leftarrow> buildTree getTime w;
     ts \<leftarrow> resolve (Suc (length (nodes w))) (kids w1) roots;
     Some (ts, w1) }"

section \<open>The incremental line tracker\<close>

text \<open>The body of the loop over the lines of a read, with the \<open>hasNewNodes\<close> flag of
  \<open>readNewContent\<close>.\<close>

definition ingest_line ::
  "(string \<Rightarrow> json option) \<Rightarrow> (json \<Rightarrow> string) \<Rightarrow> string \<Rightarrow> watcher \<times> bool \<Rightarrow> watcher \<times> bool" where
  "ingest_line parse stringify line acc =
     (case acc of (w, hasNewNodes) \<Rightarrow>
        if isValidJsonLine parse line then
          let lineHash = hashLine parse line in
          if lineHash \<notin> processedLines w then
            (case processLine parse stringify line
                    (w\<lparr>processedLines := insert lineHash (processedLines w)\<rparr>) of
               (w1, n) \<Rightarrow> (w1, hasNewNodes \<or> n \<noteq> None))
          else (w, hasNewNodes)
        else (w, hasNewNodes))"

text \<open>
  \<open>readFile\<close> and \<open>readNewContent\<close> on the text that the read of the file returned.
  The result is the watcher after the call and the tree the call emitted, if any; the
  outer \<open>None\<close> is only the fuel of the rebuild.
\<close>

definition readFile ::
  "(string \<Rightarrow> json option) \<Rightarrow> (json \<Rightarrow> string) \<Rightarrow> (json option \<Rightarrow> int) \<Rightarrow> string \<Rightarrow> watcher
     \<Rightarrow> (watcher \<times> tree list option) option" where
  "readFile parse stringify getTime text w =
     (let ls = file_lines text;
          (w1, hasNewNodes) = fold (ingest_line parse stringify) ls (w, False);
          w2 = w1\<lparr>lastLineCount := length ls\<rparr>
      in do {
        (ts, w3) \<leftarrow> getNodes getTime w2;
        Some (w3, Some ts) })"

definition readNewContent ::
  "(string \<Rightarrow> json option) \<Rightarrow> (json \<Rightarrow> string) \<Rightarrow> (json option \<Rightarrow> int) \<Rightarrow> string \<Rightarrow> watcher
     \<Rightarrow> (watcher \<times> tree list option) option" where
  "readNewContent parse stringify getTime text w =
     (let ls = file_lines text in
      if length ls \<le> lastLineCount w then Some (w, None)
      else
        let newLines = drop (lastLineCount w) ls;
            (w1, hasNewNodes) = fold (ingest_line parse stringify) newLines (w, False);
            w2 = w1\<lparr>lastLineCount := length ls\<rparr>
        in if hasNewNodes then do {
             (ts, w3) \<leftarrow> getNodes getTime w2;
             Some (w3, Some ts) }
           else Some (w2, None))"

section \<open>Forests in the children store\<close>

text \<open>
  Notions for the proofs. \<open>level d k xs\<close> is the list of the nodes \<open>d\<close> steps below the
  nodes \<open>xs\<close> in the store \<open>k\<close>, and \<open>levels d k xs\<close> the first \<open>d\<close> levels. \<open>forest U rs k\<close>
  says that over the nodes \<open>U\<close>, which have distinct identifiers, the roots \<open>rs\<close> and the
  \<open>children\<close> arrays of \<open>k\<close> place every node at most once.
\<close>

definition kids_of :: "store \<Rightarrow> node list \<Rightarrow> node list" where
  "kids_of k xs = concat (map (\<lambda>n. k (nid n)) xs)"

fun level :: "nat \<Rightarrow> store \<Rightarrow> node list \<Rightarrow> node list" where
  "level 0 k xs = xs"
| "level (Suc d) k xs = level d k (kids_of k xs)"

definition levels :: "nat \<Rightarrow> store \<Rightarrow> node list \<Rightarrow> node list" where
  "levels d k xs = concat (map (\<lambda>j. level j k xs) [0..<d])"

definition forest :: "node list \<Rightarrow> node list \<Rightarrow> store \<Rightarrow> bool" where
  "forest U rs k \<longleftrightarrow>
     distinct (map nid U) \<and> set rs \<subseteq> set U \<and> distinct rs \<and>
     (\<forall>u \<in> set U. set (k (nid u)) \<subseteq> set U \<and> distinct (k (nid u)) \<and>
                   set (k (nid u)) \<inter> set rs = {}) \<and>
     (\<forall>u \<in> set U. \<forall>v \<in> set U. u \<noteq> v \<longrightarrow> set (k (nid u)) \<inter> set (k (nid v)) = {})"

text \<open>The nodes of a tree in preorder.\<close>

fun tree_nodes :: "tree \<Rightarrow> node list" where
  "tree_nodes (Tree n cs) = n # concat (map tree_nodes cs)"

text \<open>A node that the second loop of \<open>buildTree\<close> hangs under a registered parent.\<close>

definition has_parent :: "node list \<Rightarrow> node \<Rightarrow> bool" where
  "has_parent nodeArray n =
     (case parentId n of None \<Rightarrow> False | Some p \<Rightarrow> p \<noteq> [] \<and> p \<in> set (map nid nodeArray))"

text \<open>The state of a watcher that has been built from \<open>init_watcher\<close>: one registry
  entry per identifier, and no \<open>children\<close> array for an identifier that is not
  registered.\<close>

definition wf_watcher :: "watcher \<Rightarrow> bool" where
  "wf_watcher w \<longleftrightarrow>
     distinct (map nid (nodes w)) \<and> (\<forall>i. i \<notin> set (map nid (nodes w)) \<longrightarrow> kids w i = [])"

text \<open>The first phase of \<open>buildTree\<close>, up to the call of \<open>reorganizeForDisplay\<close>: the
  sorted roots and the store of the raw linkage.\<close>

definition raw_linkage :: "(json option \<Rightarrow> int) \<Rightarrow> watcher \<Rightarrow> node list \<times> store" where
  "raw_linkage getTime w =
     (let nodeArray = nodes w;
          k0 = reset_children nodeArray (kids w);
          (k1, rootNodes) = fold (link_node nodeArray) nodeArray (k0, []);
          rootNodes = sortByTimestamp getTime rootNodes;
          k2 = fold (\<lambda>n k. k(nid n := sortByTimestamp getTime (k (nid n)))) nodeArray k1
      in (rootNodes, k2))"

text \<open>
  The invariant of the loop over the turn starters. \<open>placed U s\<close> are the nodes that are
  a new root or in the \<open>children\<close> array of a node of \<open>U\<close>. Every placed node is
  marked in \<open>usedNodes\<close>; the identifiers in \<open>pending\<close> are marked and not yet placed.
\<close>

definition placed :: "node list \<Rightarrow> node list \<Rightarrow> store \<Rightarrow> node set" where
  "placed U rs k = set rs \<union> (\<Union>u \<in> set U. set (k (nid u)))"

definition turn_inv :: "node list \<Rightarrow> string set \<Rightarrow> rstate \<Rightarrow> bool" where
  "turn_inv U pending s \<longleftrightarrow>
     forest U (newRoots s) (ch s) \<and>
     nid ` placed U (newRoots s) (ch s) \<subseteq> usedNodes s - pending \<and>
     pending \<subseteq> usedNodes s"

text \<open>What a step of the reorganization may change: it marks only nodes of \<open>X\<close>, and it
  writes only \<open>children\<close> arrays of nodes of \<open>U\<close>.\<close>

definition within :: "node list \<Rightarrow> node set \<Rightarrow> rstate \<Rightarrow> rstate \<Rightarrow> bool" where
  "within U X s0 s \<longleftrightarrow>
     usedNodes s \<subseteq> usedNodes s0 \<union> nid ` X \<and>
     (\<forall>i. i \<notin> nid ` set U \<longrightarrow> ch s i = ch s0 i)"

text \<open>The nodes whose timestamp lies strictly between a turn starter and the next.\<close>

definition window :: "(json option \<Rightarrow> int) \<Rightarrow> node list \<Rightarrow> node \<Rightarrow> node option \<Rightarrow> node set" where
  "window T U t nx = {n \<in> set U. T (timestamp n) > T (timestamp t) \<and>
      (case nx of None \<Rightarrow> True | Some x \<Rightarrow> T (timestamp n) < T (timestamp x))}"

section \<open>Sequences of reads\<close>

text \<open>The nodes that \<open>processLine\<close> upserts for a line, in order.\<close>

definition line_nodes :: "(string \<Rightarrow> json option) \<Rightarrow> (json \<Rightarrow> string) \<Rightarrow> string \<Rightarrow> node list" where
  "line_nodes parse stringify line =
     (case parse line of
        Some (JObj kvs) \<Rightarrow>
          if map_of kvs ''type'' = Some (JStr ''file-history-snapshot'') then []
          else if map_of kvs ''type'' = Some (JStr ''user'') then
            (case createUserNode parse stringify (JObj kvs) of None \<Rightarrow> [] | Some n \<Rightarrow> [n])
          else if map_of kvs ''type'' = Some (JStr ''assistant'') then
            (case createAssistantNodes stringify (JObj kvs) of None \<Rightarrow> [] | Some ns \<Rightarrow> ns)
          else []
      | _ \<Rightarrow> [])"

text \<open>
  \<open>start\<close> and the change events after it: \<open>readFile\<close> on the first content of the
  file, then \<open>readNewContent\<close> on each later content. The result is the watcher after
  the last read.
\<close>

fun poll_reads ::
  "(string \<Rightarrow> json option) \<Rightarrow> (json \<Rightarrow> string) \<Rightarrow> (json option \<Rightarrow> int) \<Rightarrow> string list \<Rightarrow> watcher
     \<Rightarrow> watcher option" where
  "poll_reads parse stringify getTime [] w = Some w"
| "poll_reads parse stringify getTime (r # rs) w = do {
     (w1, emitted) \<leftarrow> readNewContent parse stringify getTime r w;
     poll_reads parse stringify getTime rs w1 }"

definition watch_reads ::
  "(string \<Rightarrow> json option) \<Rightarrow> (json \<Rightarrow> string) \<Rightarrow> (json option \<Rightarrow> int) \<Rightarrow> string \<Rightarrow> string list
     \<Rightarrow> watcher \<Rightarrow> watcher option" where
  "watch_reads parse stringify getTime first later w = do {
     (w1, emitted) \<leftarrow> readFile parse stringify getTime first w;
     poll_reads parse stringify getTime later w1 }"

text \<open>
  The reference of C2, in the words of the spec: fingerprint-based dedup over every
  non-empty line of every read, with no skipping by line index.
\<close>

definition dedup_read ::
  "(string \<Rightarrow> json option) \<Rightarrow> (json \<Rightarrow> string) \<Rightarrow> string \<Rightarrow> watcher \<Rightarrow> watcher" where
  "dedup_read parse stringify r w = fst (fold (ingest_line parse stringify) (file_lines r) (w, False))"

definition dedup_reads ::
  "(string \<Rightarrow> json option) \<Rightarrow> (json \<Rightarrow> string) \<Rightarrow> string list \<Rightarrow> watcher \<Rightarrow> watcher" where
  "dedup_reads parse stringify reads w = fold (dedup_read parse stringify) reads w"

text \<open>Reads of a file that only grows by whole lines: the lines of each read extend the
  lines of the read before.\<close>

fun append_only :: "string list \<Rightarrow> bool" where
  "append_only [] = True"
| "append_only [r] = True"
| "append_only (r # r' # rs) =
     ((\<exists>more. file_lines r' = file_lines r @ more) \<and> append_only (r' # rs))"

text \<open>Two watchers with the same registry and the same fingerprints.\<close>

definition same_core :: "watcher \<Rightarrow> watcher \<Rightarrow> bool" where
  "same_core w w' \<longleftrightarrow> nodes w = nodes w' \<and> processedLines w = processedLines w'"

text \<open>The fingerprint of every valid line of \<open>ls\<close> is in the set of processed lines.\<close>

definition seen :: "(string \<Rightarrow> json option) \<Rightarrow> string list \<Rightarrow> watcher \<Rightarrow> bool" where
  "seen parse ls w \<longleftrightarrow>
     (\<forall>l \<in> set ls. isValidJsonLine parse l \<longrightarrow> hashLine parse l \<in> processedLines w)"

section \<open>Which nodes the reorganization keeps\<close>









section \<open>Example records\<close>

text \<open>Parsed records used by the closed theorems below. The runtime parameters they do
  not reach are \<open>no_parse\<close> and \<open>no_stringify\<close>.\<close>

definition no_parse :: "string \<Rightarrow> json option" where
  "no_parse s = None"

definition no_stringify :: "json \<Rightarrow> string" where
  "no_stringify v = []"

definition user_entry :: "string \<Rightarrow> string \<Rightarrow> string \<Rightarrow> json" where
  "user_entry u t c =
     JObj [(''type'', JStr ''user''), (''uuid'', JStr u), (''parentUuid'', JNull),
           (''timestamp'', JStr t),
           (''message'', JObj [(''role'', JStr ''user''), (''content'', JStr c)])]"

definition long_text :: string where
  "long_text = replicate 101 (CHR ''a'')"

text \<open>A parser that knows one line: \<open>JSON.parse\<close> on the text \<open>l\<close> of the record \<open>e\<close>.\<close>

definition parse_one :: "string \<Rightarrow> json \<Rightarrow> string \<Rightarrow> json option" where
  "parse_one l e s = (if s = l then Some e else None)"

definition two_text_entry :: json where
  "two_text_entry =
     JObj [(''type'', JStr ''assistant''), (''uuid'', JStr ''a1''), (''parentUuid'', JStr ''u1''),
           (''timestamp'', JStr ''2024-01-01T00:00:02Z''),
           (''message'', JObj [(''role'', JStr ''assistant''),
              (''content'', JArr [
                 JObj [(''type'', JStr ''text''), (''text'', JStr ''First answer'')],
                 JObj [(''type'', JStr ''text''), (''text'', JStr ''Second answer'')]])])]"

definition two_text_line :: string where
  \<open>two_text_line = ''{"type":"assistant","uuid":"a1","parentUuid":"u1","timestamp":"2024-01-01T00:00:02Z","message":{"role":"assistant","content":[{"type":"text","text":"First answer"},{"type":"text","text":"Second answer"}]}}''\<close>

definition caveat_command_text :: string where
  "caveat_command_text =
     ''<command-name>/clear</command-name><command-message>clear</command-message> '' @ caveat"

definition stdout_placeholder :: string where
  "stdout_placeholder = ''<local-command-stdout></local-command-stdout>''"

definition stdout_line :: string where
  \<open>stdout_line = ''{"type":"user","uuid":"u1","parentUuid":null,"timestamp":"2024-01-01T00:00:01Z","message":{"role":"user","content":"<local-command-stdout></local-command-stdout>"}}''\<close>

definition caveat_line :: string where
  \<open>caveat_line = ''{"type":"user","uuid":"u1","parentUuid":null,"timestamp":"2024-01-01T00:00:01Z","message":{"role":"user","content":"Caveat: The messages below were generated by the user"}}''\<close>

definition two_results_line :: string where
  \<open>two_results_line = ''{"type":"user","uuid":"u2","parentUuid":"a1","timestamp":"2024-01-01T00:00:03Z","message":{"role":"user","content":[{"tool_use_id":"abc","type":"tool_result","content":"first","is_error":false},{"tool_use_id":"def","type":"tool_result","content":"second","is_error":false}]}}''\<close>

definition two_results_entry :: json where
  "two_results_entry =
     JObj [(''type'', JStr ''user''), (''uuid'', JStr ''u2''), (''parentUuid'', JStr ''a1''),
           (''timestamp'', JStr ''2024-01-01T00:00:03Z''),
           (''message'', JObj [(''role'', JStr ''user''),
              (''content'', JArr [
                 JObj [(''tool_use_id'', JStr ''abc''), (''type'', JStr ''tool_result''),
                       (''content'', JStr ''first''), (''is_error'', JBool False)],
                 JObj [(''tool_use_id'', JStr ''def''), (''type'', JStr ''tool_result''),
                       (''content'', JStr ''second''), (''is_error'', JBool False)]])])]"

definition line_user :: string where
  \<open>line_user = ''{"type":"user","uuid":"u1","parentUuid":null,"timestamp":"2024-01-01T00:00:01Z","message":{"role":"user","content":"Fix the bug"}}''\<close>

definition malformed_line :: string where
  \<open>malformed_line = ''{"type":"use''\<close>

text \<open>The watcher as \<open>readFile\<close> has it after its loop, before the rebuild.\<close>

definition ingested :: "(string \<Rightarrow> json option) \<Rightarrow> (json \<Rightarrow> string) \<Rightarrow> string \<Rightarrow> watcher" where
  "ingested parse stringify text =
     (fst (fold (ingest_line parse stringify) (file_lines text) (init_watcher, False)))
       \<lparr>lastLineCount := length (file_lines text)\<rparr>"

text \<open>\<open>new Date(s).getTime()\<close> on the timestamps of the example records.\<close>

definition log_time :: "json option \<Rightarrow> int" where
  "log_time v =
     (case v of
        Some (JStr s) \<Rightarrow>
          (case map_of [(''2024-01-01T00:00:01Z'', 1704067201000),
                        (''2024-01-01T00:00:02Z'', 1704067202000),
                        (''2024-01-01T00:00:03Z'', 1704067203000)] s of
             Some t \<Rightarrow> t | None \<Rightarrow> 0)
      | _ \<Rightarrow> 0)"


text \<open>Registries given directly: a node with the fields that the tree reconstructor reads.\<close>

definition plain_node :: "string \<Rightarrow> string option \<Rightarrow> string \<Rightarrow> node_type \<Rightarrow> node" where
  "plain_node i p t ty =
     \<lparr>nid = i, parentId = p, timestamp = Some (JStr t), ntype = ty, summary = [], content = JStr [],
      toolName = None, toolInput = None, toolResult = None, agentType = None,
      skillName = None, commandName = None, raw = JNull\<rparr>"


definition scenario_registry :: watcher where
  "scenario_registry =
     init_watcher\<lparr>nodes := [plain_node ''u1'' None ''2024-01-01T00:00:01Z'' User,
        plain_node ''a1-thinking'' (Some ''u1'') ''2024-01-01T00:00:02Z'' Thinking,
        plain_node ''a1-tool-abc'' (Some ''u1'') ''2024-01-01T00:00:02Z'' Tool_call,
        plain_node ''a1-text'' (Some ''u1'') ''2024-01-01T00:00:02Z'' Assistant,
        plain_node ''u2'' (Some ''a1-tool-abc'') ''2024-01-01T00:00:03Z'' Tool_result]\<rparr>"


text \<open>A second user line, and a parser that knows the lines of a table.\<close>

definition line_user_b :: string where
  \<open>line_user_b = ''{"type":"user","uuid":"u3","parentUuid":null,"timestamp":"2024-01-01T00:00:03Z","message":{"role":"user","content":"Run the tests"}}''\<close>

definition parse_table :: "(string \<times> json) list \<Rightarrow> string \<Rightarrow> json option" where
  "parse_table t s = map_of t s"

definition two_users_parse :: "string \<Rightarrow> json option" where
  "two_users_parse =
     parse_table [(line_user, user_entry ''u1'' ''2024-01-01T00:00:01Z'' ''Fix the bug''),
                  (line_user_b, user_entry ''u3'' ''2024-01-01T00:00:03Z'' ''Run the tests'')]"


text \<open>A write in flight: the file holds the first line and the first 52 characters of
  the second; the next read finds the second line whole.\<close>

definition read_partial :: string where
  "read_partial = line_user @ CHR 0x0A # take 52 line_user_b"

definition read_whole :: string where
  "read_whole = line_user @ CHR 0x0A # line_user_b"

section \<open>Properties of the record classifier\<close>

lemma regular_user_node_Some:
  assumes "regular_user_node parse stringify entry u mc = Some n"
  shows "\<exists>c. content n = JStr c \<and> \<not> skip (detectSystemMessage parse c) \<and>
              ntype n = (if isSystem (detectSystemMessage parse c) then System else User) \<and>
              summary n = (if isSystem (detectSystemMessage parse c)
                           then sys_summary (detectSystemMessage parse c)
                           else truncate_text c 100)"
proof -
  from assms obtain c where
    n: "(let systemInfo = detectSystemMessage parse c in
     if skip systemInfo then None
     else Some \<lparr>nid = u, parentId = parent_of entry, timestamp = jget entry ''timestamp'',
                ntype = (if isSystem systemInfo then System else User),
                summary = (if isSystem systemInfo then sys_summary systemInfo
                           else truncate_text c 100),
                content = JStr c, toolName = None, toolInput = None, toolResult = None,
                agentType = None, skillName = None, commandName = None, raw = entry\<rparr>) = Some n"
    unfolding regular_user_node_def by (auto simp: bind_eq_Some_conv)
  show ?thesis
  proof (cases "skip (detectSystemMessage parse c)")
    case True
    with n show ?thesis by (simp add: Let_def)
  next
    case False
    with n have "n = \<lparr>nid = u, parentId = parent_of entry, timestamp = jget entry ''timestamp'',
                ntype = (if isSystem (detectSystemMessage parse c) then System else User),
                summary = (if isSystem (detectSystemMessage parse c)
                           then sys_summary (detectSystemMessage parse c)
                           else truncate_text c 100),
                content = JStr c, toolName = None, toolInput = None, toolResult = None,
                agentType = None, skillName = None, commandName = None, raw = entry\<rparr>"
      by (simp add: Let_def)
    with False show ?thesis by (intro exI[of _ c]) simp
  qed
qed

lemma createUserNode_Some:
  assumes "createUserNode parse stringify entry = Some n"
  shows "ntype n = Tool_result \<or>
         (\<exists>u mc. regular_user_node parse stringify entry u mc = Some n)"
proof -
  from assms obtain u mc where
    c: "(case first_tool_result mc of
       Some toolResultItem \<Rightarrow> Some (tool_result_node stringify entry u toolResultItem)
     | None \<Rightarrow> regular_user_node parse stringify entry u mc) = Some n"
    unfolding createUserNode_def by (auto simp: bind_eq_Some_conv)
  show ?thesis
  proof (cases "first_tool_result mc")
    case None
    with c show ?thesis by auto
  next
    case (Some it)
    with c have "n = tool_result_node stringify entry u it" by simp
    then show ?thesis by (simp add: tool_result_node_def Let_def)
  qed
qed

text \<open>
  C8, as the code has it: the summary of an ordinary user node is its content when the
  content has at most 100 characters, and otherwise the first 97 characters of the
  content followed by three dots, 100 characters in all.
\<close>

theorem C8_user_summary:
  assumes "createUserNode parse stringify entry = Some n" and "ntype n = User"
  shows "\<exists>c. content n = JStr c \<and>
             summary n = (if length c \<le> 100 then c else take 97 c @ ''...'')"
proof -
  from createUserNode_Some[OF assms(1)] assms(2) obtain u mc
    where "regular_user_node parse stringify entry u mc = Some n" by auto
  from regular_user_node_Some[OF this] assms(2) show ?thesis
    by (auto simp: truncate_text_def split: if_splits)
qed

theorem C8_user_summary_witness:
  "createUserNode no_parse no_stringify (user_entry ''u1'' ''2024-01-01T00:00:01Z'' long_text) \<noteq> None \<and>
   (\<exists>c. content (the (createUserNode no_parse no_stringify
                        (user_entry ''u1'' ''2024-01-01T00:00:01Z'' long_text))) = JStr c \<and>
        summary (the (createUserNode no_parse no_stringify
                        (user_entry ''u1'' ''2024-01-01T00:00:01Z'' long_text))) =
          (if length c \<le> 100 then c else take 97 c @ ''...''))"
proof -
  let ?r = "createUserNode no_parse no_stringify (user_entry ''u1'' ''2024-01-01T00:00:01Z'' long_text)"
  have h1: "?r = Some (the ?r)" by code_simp
  have h2: "ntype (the ?r) = User" by code_simp
  from h1 have h3: "?r \<noteq> None" by (metis option.distinct(1))
  from C8_user_summary[OF h1 h2] h3 show ?thesis by blast
qed

text \<open>C8 as stated fails: a content of 101 characters gives an ordinary user node whose
  summary is not the first 100 characters of the content.\<close>

theorem C8_counterexample:
  "map_option ntype (createUserNode no_parse no_stringify
       (user_entry ''u1'' ''2024-01-01T00:00:01Z'' long_text)) = Some User \<and>
   map_option content (createUserNode no_parse no_stringify
       (user_entry ''u1'' ''2024-01-01T00:00:01Z'' long_text)) = Some (JStr long_text) \<and>
   length long_text = 101 \<and>
   map_option summary (createUserNode no_parse no_stringify
       (user_entry ''u1'' ''2024-01-01T00:00:01Z'' long_text)) \<noteq> Some (take 100 long_text)"
  by code_simp

text \<open>
  C4 fails on the code: an assistant record with two text segments expands into two
  nodes with the same identifier, and after \<open>processLine\<close> the registry holds the second
  one only.
\<close>

theorem C4_two_text_segments_collide:
  "map_option (map (\<lambda>n. (nid n, summary n))) (createAssistantNodes no_stringify two_text_entry)
     = Some [(''a1-text'', ''First answer''), (''a1-text'', ''Second answer'')] \<and>
   map (\<lambda>n. (nid n, summary n))
       (nodes (fst (processLine (parse_one two_text_line two_text_entry) no_stringify
                      two_text_line init_watcher)))
     = [(''a1-text'', ''Second answer'')]"
  by code_simp

lemma createUserNode_plain:
  assumes "map_of kvs ''message'' = Some msg" "jget msg ''content'' = Some (JStr c)"
  shows "createUserNode parse stringify (JObj kvs) =
           (case uuid_of (JObj kvs) of None \<Rightarrow> None
            | Some u \<Rightarrow> regular_user_node parse stringify (JObj kvs) u (Some (JStr c)))"
proof -
  from assms(2) have "msg \<noteq> JNull" by auto
  with assms have "jprop (jget (JObj kvs) ''message'') ''content'' = Some (Some (JStr c))"
    by (cases msg) (simp_all add: jprop_def)
  then show ?thesis
    by (simp add: createUserNode_def first_tool_result_def split: option.splits)
qed

lemma regular_skip:
  "skip (detectSystemMessage parse c) \<Longrightarrow>
   regular_user_node parse stringify entry u (Some (JStr c)) = None"
  by (simp add: regular_user_node_def Let_def)

lemma detect_skip:
  assumes "(str_includes c ''<local-command-stdout>'' \<and>
            \<not> (str_includes c ''<command-name>'' \<and> str_includes c ''<command-message>''))
         \<or> (str_includes c caveat \<and>
            \<not> (str_includes c ''<command-name>'' \<and> str_includes c ''<command-message>'') \<and>
            \<not> (str_includes c ''<command-message>'' \<and> str_includes c ''is running'') \<and>
            \<not> startsWith c text_array_prefix)"
  shows "skip (detectSystemMessage parse c)"
  using assms unfolding detectSystemMessage_def Let_def by auto

lemma processLine_user:
  assumes "parse line = Some (JObj kvs)" "map_of kvs ''type'' = Some (JStr ''user'')"
  shows "processLine parse stringify line w =
           (case createUserNode parse stringify (JObj kvs) of
              None \<Rightarrow> (w, None) | Some n \<Rightarrow> (upsert n w, Some n))"
  using assms by (simp add: processLine_def)

text \<open>
  C7, as the code has it. The boilerplate filter takes the first rule that matches, so a
  user record with plain-text content produces no node and leaves the registry as it
  is when the content contains the local-command-stdout placeholder and is not a
  command invocation (both \<open><command-name>\<close> and \<open><command-message>\<close>), or when it
  contains the caveat marker and no earlier rule applies: it is not a command
  invocation, not a running command (\<open><command-message>\<close> with \<open>is running\<close>) and does
  not start like a serialised array of text segments.
\<close>

theorem C7_boilerplate_suppressed:
  assumes "parse line = Some (JObj kvs)"
    and "map_of kvs ''type'' = Some (JStr ''user'')"
    and "map_of kvs ''message'' = Some msg"
    and "jget msg ''content'' = Some (JStr c)"
    and "(str_includes c ''<local-command-stdout>'' \<and>
            \<not> (str_includes c ''<command-name>'' \<and> str_includes c ''<command-message>''))
         \<or> (str_includes c caveat \<and>
            \<not> (str_includes c ''<command-name>'' \<and> str_includes c ''<command-message>'') \<and>
            \<not> (str_includes c ''<command-message>'' \<and> str_includes c ''is running'') \<and>
            \<not> startsWith c text_array_prefix)"
  shows "createUserNode parse stringify (JObj kvs) = None \<and>
         processLine parse stringify line w = (w, None)"
proof -
  have "skip (detectSystemMessage parse c)" by (rule detect_skip[OF assms(5)])
  then have "createUserNode parse stringify (JObj kvs) = None"
    by (simp add: createUserNode_plain[OF assms(3,4)] regular_skip split: option.splits)
  with processLine_user[of parse line kvs stringify w] assms(1,2) show ?thesis by simp
qed

theorem C7_boilerplate_suppressed_witness:
  "processLine (parse_one stdout_line (user_entry ''u1'' ''2024-01-01T00:00:01Z'' stdout_placeholder))
      no_stringify stdout_line init_watcher = (init_watcher, None) \<and>
   processLine (parse_one caveat_line (user_entry ''u1'' ''2024-01-01T00:00:01Z'' caveat))
      no_stringify caveat_line init_watcher = (init_watcher, None)"
proof -
  let ?kvs = "\<lambda>c. [(''type'', JStr ''user''), (''uuid'', JStr ''u1''), (''parentUuid'', JNull),
           (''timestamp'', JStr ''2024-01-01T00:00:01Z''),
           (''message'', JObj [(''role'', JStr ''user''), (''content'', JStr c)])]"
  let ?msg = "\<lambda>c. JObj [(''role'', JStr ''user''), (''content'', JStr c)]"
  let ?P = "\<lambda>l c. parse_one l (user_entry ''u1'' ''2024-01-01T00:00:01Z'' c)"
  have p: "\<And>l c. ?P l c l = Some (JObj (?kvs c))"
    by (simp add: parse_one_def user_entry_def)
  have t: "\<And>c. map_of (?kvs c) ''type'' = Some (JStr ''user'')" by simp
  have m: "\<And>c. map_of (?kvs c) ''message'' = Some (?msg c)" by simp
  have g: "\<And>c. jget (?msg c) ''content'' = Some (JStr c)" by simp
  have s1: "str_includes stdout_placeholder ''<local-command-stdout>'' \<and>
            \<not> (str_includes stdout_placeholder ''<command-name>'' \<and>
               str_includes stdout_placeholder ''<command-message>'')"
    by code_simp
  have s2: "str_includes caveat caveat \<and>
            \<not> (str_includes caveat ''<command-name>'' \<and> str_includes caveat ''<command-message>'') \<and>
            \<not> (str_includes caveat ''<command-message>'' \<and> str_includes caveat ''is running'') \<and>
            \<not> startsWith caveat text_array_prefix"
    by code_simp
  have a: "createUserNode (?P stdout_line stdout_placeholder) no_stringify
             (JObj (?kvs stdout_placeholder)) = None \<and>
        processLine (?P stdout_line stdout_placeholder) no_stringify stdout_line init_watcher
          = (init_watcher, None)"
    using s1
    by (intro C7_boilerplate_suppressed[where msg = "?msg stdout_placeholder"
                                          and c = stdout_placeholder])
       (simp_all only: p t m g simp_thms)
  have b: "createUserNode (?P caveat_line caveat) no_stringify (JObj (?kvs caveat)) = None \<and>
        processLine (?P caveat_line caveat) no_stringify caveat_line init_watcher
          = (init_watcher, None)"
    using s2
    by (intro C7_boilerplate_suppressed[where msg = "?msg caveat" and c = caveat])
       (simp_all only: p t m g simp_thms)
  from a b show ?thesis by simp
qed

text \<open>C7 as stated fails: a plain-text content that contains the caveat marker after a
  command invocation wrapper produces a system node.\<close>

theorem C7_counterexample:
  "str_includes caveat_command_text caveat \<and>
   map_option (\<lambda>n. (ntype n, summary n))
     (createUserNode no_parse no_stringify
        (user_entry ''u1'' ''2024-01-01T00:00:01Z'' caveat_command_text))
   = Some (System, ''Command: /clear'')"
  by code_simp

lemma createUserNode_tool_result:
  assumes "uuid_of entry = Some u"
    and "jget entry ''message'' = Some msg"
    and "jget msg ''content'' = Some (JArr (JObj firstItem # rest))"
    and "map_of firstItem ''type'' = Some (JStr ''tool_result'')"
  shows "createUserNode parse stringify entry =
           Some (tool_result_node stringify entry u firstItem)"
proof -
  from assms(3) have "msg \<noteq> JNull" by auto
  with assms(2,3)
  have "jprop (jget entry ''message'') ''content'' = Some (Some (JArr (JObj firstItem # rest)))"
    by (cases msg) (simp_all add: jprop_def)
  with assms(1,4) show ?thesis
    by (simp add: createUserNode_def first_tool_result_def)
qed

lemma tool_result_node_raw:
  assumes "jget entry2 ''parentUuid'' = jget entry ''parentUuid''"
    and "jget entry2 ''timestamp'' = jget entry ''timestamp''"
  shows "tool_result_node stringify entry2 u firstItem =
           (tool_result_node stringify entry u firstItem)\<lparr>raw := entry2\<rparr>"
  using assms by (simp add: tool_result_node_def Let_def)

text \<open>
  C10. Processing a user line leaves the registry as it is or upserts exactly one node.
  When the content is an array whose first item is a \<open>tool_result\<close> object, the node is
  the one whose fields are listed below: each of them is built from the record's
  \<open>uuid\<close>, \<open>parentUuid\<close> and \<open>timestamp\<close> and from the first item, and the rest of the
  array reaches the node only inside \<open>raw\<close>, the whole record. Hence two such records
  that agree on the three fields and on the first item give the same node but for
  \<open>raw\<close>, whatever follows the first item. The test for a tool result looks at the
  first item only.
\<close>

theorem C10_user_record_at_most_one_node:
  assumes "parse line = Some (JObj kvs)" and "map_of kvs ''type'' = Some (JStr ''user'')"
  shows "(processLine parse stringify line w = (w, None) \<or>
          (\<exists>n. processLine parse stringify line w = (upsert n w, Some n))) \<and>
         (\<forall>u msg firstItem rest.
            uuid_of (JObj kvs) = Some u \<and> map_of kvs ''message'' = Some msg \<and>
            jget msg ''content'' = Some (JArr (JObj firstItem # rest)) \<and>
            map_of firstItem ''type'' = Some (JStr ''tool_result'') \<longrightarrow>
            (\<exists>n. processLine parse stringify line w = (upsert n w, Some n) \<and>
                 nid n = u \<and> ntype n = Tool_result \<and>
                 parentId n = Some (tmpl (map_of kvs ''parentUuid'') @ ''-tool-'' @
                                    tmpl (map_of firstItem ''tool_use_id'')) \<and>
                 timestamp n = map_of kvs ''timestamp'' \<and>
                 content n = the (jor (map_of firstItem ''content'') (Some (JStr []))) \<and>
                 summary n = getToolResultSummary stringify (content n)
                               (map_of firstItem ''is_error'') \<and>
                 toolResult n =
                   Some (JObj (if truthy (map_of firstItem ''is_error'')
                               then [(''stderr'', content n)]
                               else [(''stdout'', content n)])) \<and>
                 toolName n = None \<and> toolInput n = None \<and> agentType n = None \<and>
                 skillName n = None \<and> commandName n = None \<and> raw n = JObj kvs)) \<and>
         (\<forall>kvs2 msg msg2 firstItem rest rest2.
            map_of kvs ''message'' = Some msg \<and>
            jget msg ''content'' = Some (JArr (JObj firstItem # rest)) \<and>
            map_of firstItem ''type'' = Some (JStr ''tool_result'') \<and>
            map_of kvs2 ''uuid'' = map_of kvs ''uuid'' \<and>
            map_of kvs2 ''parentUuid'' = map_of kvs ''parentUuid'' \<and>
            map_of kvs2 ''timestamp'' = map_of kvs ''timestamp'' \<and>
            map_of kvs2 ''message'' = Some msg2 \<and>
            jget msg2 ''content'' = Some (JArr (JObj firstItem # rest2)) \<longrightarrow>
            createUserNode parse stringify (JObj kvs2) =
              map_option (\<lambda>n. n\<lparr>raw := JObj kvs2\<rparr>)
                (createUserNode parse stringify (JObj kvs))) \<and>
         (\<forall>x rest. first_tool_result (Some (JArr (x # rest))) =
                   first_tool_result (Some (JArr [x])))"
proof (intro conjI allI impI)
  show "processLine parse stringify line w = (w, None) \<or>
          (\<exists>n. processLine parse stringify line w = (upsert n w, Some n))"
    using processLine_user[of parse line kvs stringify w] assms
    by (cases "createUserNode parse stringify (JObj kvs)") auto
next
  fix u msg firstItem rest
  assume h: "uuid_of (JObj kvs) = Some u \<and> map_of kvs ''message'' = Some msg \<and>
            jget msg ''content'' = Some (JArr (JObj firstItem # rest)) \<and>
            map_of firstItem ''type'' = Some (JStr ''tool_result'')"
  let ?n = "tool_result_node stringify (JObj kvs) u firstItem"
  from h have "createUserNode parse stringify (JObj kvs) = Some ?n"
    using createUserNode_tool_result[of "JObj kvs" u msg firstItem rest parse stringify]
    by simp
  then have "processLine parse stringify line w = (upsert ?n w, Some ?n)"
    using processLine_user[of parse line kvs stringify w] assms by simp
  then show "\<exists>n. processLine parse stringify line w = (upsert n w, Some n) \<and>
                 nid n = u \<and> ntype n = Tool_result \<and>
                 parentId n = Some (tmpl (map_of kvs ''parentUuid'') @ ''-tool-'' @
                                    tmpl (map_of firstItem ''tool_use_id'')) \<and>
                 timestamp n = map_of kvs ''timestamp'' \<and>
                 content n = the (jor (map_of firstItem ''content'') (Some (JStr []))) \<and>
                 summary n = getToolResultSummary stringify (content n)
                               (map_of firstItem ''is_error'') \<and>
                 toolResult n =
                   Some (JObj (if truthy (map_of firstItem ''is_error'')
                               then [(''stderr'', content n)]
                               else [(''stdout'', content n)])) \<and>
                 toolName n = None \<and> toolInput n = None \<and> agentType n = None \<and>
                 skillName n = None \<and> commandName n = None \<and> raw n = JObj kvs"
    by (intro exI[of _ ?n]) (simp add: tool_result_node_def Let_def)
next
  fix kvs2 msg msg2 firstItem rest rest2
  assume h: "map_of kvs ''message'' = Some msg \<and>
            jget msg ''content'' = Some (JArr (JObj firstItem # rest)) \<and>
            map_of firstItem ''type'' = Some (JStr ''tool_result'') \<and>
            map_of kvs2 ''uuid'' = map_of kvs ''uuid'' \<and>
            map_of kvs2 ''parentUuid'' = map_of kvs ''parentUuid'' \<and>
            map_of kvs2 ''timestamp'' = map_of kvs ''timestamp'' \<and>
            map_of kvs2 ''message'' = Some msg2 \<and>
            jget msg2 ''content'' = Some (JArr (JObj firstItem # rest2))"
  then have uu: "uuid_of (JObj kvs2) = uuid_of (JObj kvs)" by (simp add: uuid_of_def)
  show "createUserNode parse stringify (JObj kvs2) =
          map_option (\<lambda>n. n\<lparr>raw := JObj kvs2\<rparr>) (createUserNode parse stringify (JObj kvs))"
  proof (cases "uuid_of (JObj kvs)")
    case None
    with uu show ?thesis by (simp add: createUserNode_def)
  next
    case (Some u)
    from h Some
    have a: "createUserNode parse stringify (JObj kvs) =
               Some (tool_result_node stringify (JObj kvs) u firstItem)"
      using createUserNode_tool_result[of "JObj kvs" u msg firstItem rest parse stringify]
      by simp
    from h Some uu
    have b: "createUserNode parse stringify (JObj kvs2) =
               Some (tool_result_node stringify (JObj kvs2) u firstItem)"
      using createUserNode_tool_result[of "JObj kvs2" u msg2 firstItem rest2 parse stringify]
      by simp
    from h have "tool_result_node stringify (JObj kvs2) u firstItem =
                 (tool_result_node stringify (JObj kvs) u firstItem)\<lparr>raw := JObj kvs2\<rparr>"
      by (intro tool_result_node_raw) simp_all
    with a b show ?thesis by simp
  qed
next
  fix x rest
  show "first_tool_result (Some (JArr (x # rest))) = first_tool_result (Some (JArr [x]))"
    by (cases x) (simp_all add: first_tool_result_def)
qed

theorem C10_user_record_at_most_one_node_witness:
  "map (\<lambda>n. (nid n, parentId n, ntype n, content n, summary n, toolResult n))
     (nodes (fst (processLine (parse_one two_results_line two_results_entry) no_stringify
                    two_results_line init_watcher)))
   = [(''u2'', Some ''a1-tool-abc'', Tool_result, JStr ''first'', ''first'',
       Some (JObj [(''stdout'', JStr ''first'')]))]"
proof -
  let ?first = "[(''tool_use_id'', JStr ''abc''), (''type'', JStr ''tool_result''),
                       (''content'', JStr ''first''), (''is_error'', JBool False)]"
  let ?rest = "[JObj [(''tool_use_id'', JStr ''def''), (''type'', JStr ''tool_result''),
                       (''content'', JStr ''second''), (''is_error'', JBool False)]]"
  let ?msg = "JObj [(''role'', JStr ''user''), (''content'', JArr (JObj ?first # ?rest))]"
  let ?kvs = "[(''type'', JStr ''user''), (''uuid'', JStr ''u2''), (''parentUuid'', JStr ''a1''),
           (''timestamp'', JStr ''2024-01-01T00:00:03Z''), (''message'', ?msg)]"
  let ?P = "parse_one two_results_line two_results_entry"
  have p: "?P two_results_line = Some (JObj ?kvs)"
    by (simp add: parse_one_def two_results_entry_def)
  have t: "map_of ?kvs ''type'' = Some (JStr ''user'')" by simp
  have h: "uuid_of (JObj ?kvs) = Some ''u2'' \<and> map_of ?kvs ''message'' = Some ?msg \<and>
            jget ?msg ''content'' = Some (JArr (JObj ?first # ?rest)) \<and>
            map_of ?first ''type'' = Some (JStr ''tool_result'')"
    by (simp add: uuid_of_def)
  have s: "getToolResultSummary no_stringify (JStr ''first'') (Some (JBool False)) = ''first''"
    by code_simp
  from C10_user_record_at_most_one_node[where parse = "?P"
         and line = two_results_line and kvs = ?kvs and stringify = no_stringify
         and w = init_watcher, OF p t] h
  obtain n where n: "processLine ?P no_stringify two_results_line init_watcher =
                       (upsert n init_watcher, Some n)"
    "nid n = ''u2''" "ntype n = Tool_result"
    "parentId n = Some (tmpl (map_of ?kvs ''parentUuid'') @ ''-tool-'' @
                        tmpl (map_of ?first ''tool_use_id''))"
    "content n = the (jor (map_of ?first ''content'') (Some (JStr [])))"
    "summary n = getToolResultSummary no_stringify (content n) (map_of ?first ''is_error'')"
    "toolResult n = Some (JObj (if truthy (map_of ?first ''is_error'')
                               then [(''stderr'', content n)] else [(''stdout'', content n)]))"
    by blast
  from n(5) have c: "content n = JStr ''first''" by (simp add: jor_def)
  from n(4) have pa: "parentId n = Some ''a1-tool-abc''" by (simp add: tmpl_def)
  from n(6) c s have su: "summary n = ''first''" by simp
  from n(7) c have tr: "toolResult n = Some (JObj [(''stdout'', JStr ''first'')])" by simp
  from n(1) have "nodes (fst (processLine ?P no_stringify two_results_line init_watcher)) = [n]"
    by (simp add: upsert_def init_watcher_def)
  with n(2,3) c pa su tr show ?thesis by simp
qed

section \<open>Properties of the line tracker\<close>

lemma split_nl_nonempty: "split_nl s \<noteq> []"
  by (induction s) (auto split: list.splits)

lemma split_nl_append: "split_nl (a @ CHR 0x0A # b) = split_nl a @ split_nl b"
proof (induction a)
  case Nil
  show ?case by simp
next
  case (Cons c cs)
  show ?case
  proof (cases "c = CHR 0x0A")
    case True
    with Cons show ?thesis by simp
  next
    case False
    obtain l ls where s: "split_nl cs = l # ls"
      using split_nl_nonempty[of cs] by (cases "split_nl cs") auto
    with False Cons show ?thesis by simp
  qed
qed

lemma split_nl_single: "CHR 0x0A \<notin> set s \<Longrightarrow> split_nl s = [s]"
  by (induction s) auto

lemma file_lines_append:
  "file_lines (a @ CHR 0x0A # b) = file_lines a @ file_lines b"
  by (simp add: file_lines_def split_nl_append)

lemma file_lines_single:
  "CHR 0x0A \<notin> set s \<Longrightarrow> file_lines s = (if trim s = [] then [] else [s])"
  by (simp add: file_lines_def split_nl_single)

lemma not_valid_iff:
  "\<not> isValidJsonLine parse l \<longleftrightarrow>
     trim l = [] \<or> \<not> startsWith (trim l) ''{'' \<or> \<not> endsWith (trim l) ''}'' \<or> parse (trim l) = None"
  by (auto simp: isValidJsonLine_def Let_def split: option.splits)

lemma ingest_invalid:
  "\<not> isValidJsonLine parse l \<Longrightarrow> ingest_line parse stringify l (w, b) = (w, b)"
  by (simp add: ingest_line_def)

lemma buildTree_lastLineCount:
  "buildTree getTime (w\<lparr>lastLineCount := x\<rparr>) =
     map_option (\<lambda>(r, w1). (r, w1\<lparr>lastLineCount := x\<rparr>)) (buildTree getTime w)"
  by (simp add: buildTree_def Let_def split: prod.splits option.splits Option.bind_splits)

lemma getNodes_lastLineCount:
  "getNodes getTime (w\<lparr>lastLineCount := x\<rparr>) =
     map_option (\<lambda>(ts, w1). (ts, w1\<lparr>lastLineCount := x\<rparr>)) (getNodes getTime w)"
  by (auto simp add: getNodes_def buildTree_lastLineCount split: Option.bind_splits)

text \<open>
  C9. A trailing line without a line feed in it that does not both start with \<open>{\<close>
  and end with \<open>}\<close>, or that does not parse, is appended after a line feed to a
  file whose lines the watcher has counted. The next poll returns without an error and
  emits no snapshot; the registry, the children and the fingerprints are as before,
  and so is the tree of a snapshot.
\<close>

theorem C9_malformed_trailing_line:
  assumes bad: "\<not> startsWith (trim bad) ''{'' \<or> \<not> endsWith (trim bad) ''}'' \<or> parse (trim bad) = None"
    and nl: "CHR 0x0A \<notin> set bad"
    and cnt: "lastLineCount w = length (file_lines old)"
  shows "\<exists>w'. readNewContent parse stringify getTime (old @ CHR 0x0A # bad) w = Some (w', None) \<and>
              nodes w' = nodes w \<and> kids w' = kids w \<and> processedLines w' = processedLines w \<and>
              map_option fst (getNodes getTime w') = map_option fst (getNodes getTime w)"
proof -
  from bad have inv: "\<not> isValidJsonLine parse bad" by (simp add: not_valid_iff)
  have ls: "file_lines (old @ CHR 0x0A # bad) = file_lines old @ (if trim bad = [] then [] else [bad])"
    using nl by (simp add: file_lines_append file_lines_single)
  show ?thesis
  proof (cases "trim bad = []")
    case True
    with ls cnt have "readNewContent parse stringify getTime (old @ CHR 0x0A # bad) w = Some (w, None)"
      by (simp add: readNewContent_def Let_def)
    then show ?thesis by simp
  next
    case False
    let ?w = "w\<lparr>lastLineCount := Suc (length (file_lines old))\<rparr>"
    from False ls cnt inv
    have "readNewContent parse stringify getTime (old @ CHR 0x0A # bad) w = Some (?w, None)"
      by (simp add: readNewContent_def Let_def ingest_invalid)
    moreover have "map_option fst (getNodes getTime ?w) = map_option fst (getNodes getTime w)"
      by (cases "getNodes getTime w") (auto simp: getNodes_lastLineCount)
    ultimately show ?thesis by simp
  qed
qed


theorem C9_malformed_trailing_line_witness:
  "\<exists>w'. readNewContent (parse_one line_user (user_entry ''u1'' ''2024-01-01T00:00:01Z'' ''Fix the bug''))
            no_stringify log_time (line_user @ CHR 0x0A # malformed_line)
            (ingested (parse_one line_user (user_entry ''u1'' ''2024-01-01T00:00:01Z'' ''Fix the bug''))
                      no_stringify line_user) = Some (w', None) \<and>
        nodes w' = nodes (ingested (parse_one line_user (user_entry ''u1'' ''2024-01-01T00:00:01Z'' ''Fix the bug''))
                      no_stringify line_user)"
proof -
  let ?P = "parse_one line_user (user_entry ''u1'' ''2024-01-01T00:00:01Z'' ''Fix the bug'')"
  have b: "\<not> startsWith (trim malformed_line) ''{'' \<or> \<not> endsWith (trim malformed_line) ''}'' \<or>
           ?P (trim malformed_line) = None"
    by code_simp
  have n: "CHR 0x0A \<notin> set malformed_line" by code_simp
  have c: "lastLineCount (ingested ?P no_stringify line_user) = length (file_lines line_user)"
    by (simp add: ingested_def)
  from C9_malformed_trailing_line[where parse = "?P" and bad = malformed_line and old = line_user
         and w = "ingested ?P no_stringify line_user" and stringify = no_stringify
         and getTime = log_time, OF b n c]
  show ?thesis by blast
qed

section \<open>Properties of forests in the store\<close>

lemma kids_of_append: "kids_of k (xs @ ys) = kids_of k xs @ kids_of k ys"
  by (simp add: kids_of_def)

lemma kids_of_Nil: "kids_of k [] = []"
  by (simp add: kids_of_def)

lemma kids_of_Cons: "kids_of k (x # xs) = k (nid x) @ kids_of k xs"
  by (simp add: kids_of_def)

lemma level_append: "level d k (xs @ ys) = level d k xs @ level d k ys"
  by (induction d arbitrary: xs ys) (simp_all add: kids_of_append)

lemma level_Nil: "level d k [] = []"
  by (induction d) (simp_all add: kids_of_Nil)

lemma level_Suc_kids: "level (Suc d) k xs = kids_of k (level d k xs)"
  by (induction d arbitrary: xs) simp_all

lemma level_Cons: "level (Suc d) k (x # xs) = level d k (k (nid x)) @ level (Suc d) k xs"
  by (simp add: kids_of_Cons level_append)

lemma level_empty_later: "level d k xs = [] \<Longrightarrow> level (d + e) k xs = []"
proof (induction e)
  case 0 then show ?case by simp
next
  case (Suc e)
  then have "level (d + e) k xs = []" by simp
  then have "kids_of k (level (d + e) k xs) = []" by (simp add: kids_of_Nil)
  then show ?case by (simp add: level_Suc_kids del: level.simps)
qed

lemma forest_kids_of:
  assumes f: "forest U rs k" and "set xs \<subseteq> set U" "distinct xs"
  shows "distinct (kids_of k xs) \<and> set (kids_of k xs) \<subseteq> set U \<and> set (kids_of k xs) \<inter> set rs = {}"
  using assms(2,3)
proof (induction xs)
  case Nil
  then show ?case by (simp add: kids_of_Nil)
next
  case (Cons x xs)
  then have ih: "distinct (kids_of k xs)" "set (kids_of k xs) \<subseteq> set U" "set (kids_of k xs) \<inter> set rs = {}"
    by auto
  from Cons.prems have x: "x \<in> set U" "x \<notin> set xs" "set xs \<subseteq> set U" by auto
  from f x(1) have kx: "set (k (nid x)) \<subseteq> set U" "distinct (k (nid x))" "set (k (nid x)) \<inter> set rs = {}"
    by (auto simp: forest_def)
  have "set (k (nid x)) \<inter> set (kids_of k xs) = {}"
  proof -
    { fix y assume y1: "y \<in> set (k (nid x))" and "y \<in> set (kids_of k xs)"
      then obtain v where v: "v \<in> set xs" "y \<in> set (k (nid v))" by (auto simp: kids_of_def)
      with x have "v \<in> set U" "x \<noteq> v" by auto
      with f x(1) have "set (k (nid x)) \<inter> set (k (nid v)) = {}" by (auto simp: forest_def)
      with y1 v have False by auto }
    then show ?thesis by auto
  qed
  with ih kx show ?case by (auto simp: kids_of_Cons)
qed

lemma forest_kids_disjoint:
  assumes f: "forest U rs k" and "set xs \<subseteq> set U" "set ys \<subseteq> set U" "set xs \<inter> set ys = {}"
  shows "set (kids_of k xs) \<inter> set (kids_of k ys) = {}"
proof -
  { fix y assume "y \<in> set (kids_of k xs)" "y \<in> set (kids_of k ys)"
    then obtain u v where uv: "u \<in> set xs" "y \<in> set (k (nid u))" "v \<in> set ys" "y \<in> set (k (nid v))"
      by (auto simp: kids_of_def)
    with assms have "u \<in> set U" "v \<in> set U" "u \<noteq> v" by auto
    with f have "set (k (nid u)) \<inter> set (k (nid v)) = {}" by (auto simp: forest_def)
    with uv have False by auto }
  then show ?thesis by auto
qed

lemma forest_level:
  assumes f: "forest U rs k"
  shows "distinct (level m k rs) \<and> set (level m k rs) \<subseteq> set U \<and>
         (\<forall>j < m. set (level j k rs) \<inter> set (level m k rs) = {})"
proof (induction m rule: less_induct)
  case (less m)
  show ?case
  proof (cases m)
    case 0
    with f show ?thesis by (simp add: forest_def)
  next
    case (Suc n)
    from less.IH[of n] Suc
    have n: "distinct (level n k rs)" "set (level n k rs) \<subseteq> set U"
         "\<forall>j < n. set (level j k rs) \<inter> set (level n k rs) = {}" by auto
    have m: "level m k rs = kids_of k (level n k rs)" using Suc by (simp add: level_Suc_kids del: level.simps)
    from forest_kids_of[OF f n(2) n(1)] m
    have a: "distinct (level m k rs)" "set (level m k rs) \<subseteq> set U" "set (level m k rs) \<inter> set rs = {}"
      by auto
    have "set (level j k rs) \<inter> set (level m k rs) = {}" if "j < m" for j
    proof (cases j)
      case 0
      with a(3) show ?thesis by auto
    next
      case (Suc i)
      with that \<open>m = Suc n\<close> have i: "i < n" by simp
      from less.IH[of i] i \<open>m = Suc n\<close> have "set (level i k rs) \<subseteq> set U" by auto
      moreover from n(3) i have "set (level i k rs) \<inter> set (level n k rs) = {}" by auto
      ultimately have "set (kids_of k (level i k rs)) \<inter> set (kids_of k (level n k rs)) = {}"
        using forest_kids_disjoint[OF f _ n(2)] by blast
      with m Suc show ?thesis by (simp add: level_Suc_kids del: level.simps)
    qed
    with a show ?thesis by auto
  qed
qed

lemma forest_levels_distinct:
  assumes f: "forest U rs k"
  shows "distinct (levels d k rs) \<and> set (levels d k rs) \<subseteq> set U"
proof (induction d)
  case 0
  then show ?case by (simp add: levels_def)
next
  case (Suc d)
  have l: "levels (Suc d) k rs = levels d k rs @ level d k rs" by (simp add: levels_def)
  have "set (levels d k rs) \<inter> set (level d k rs) = {}"
    using forest_level[OF f, of d] by (auto simp: levels_def)
  with Suc forest_level[OF f, of d] l show ?case by auto
qed

lemma forest_level_vanishes:
  assumes f: "forest U rs k"
  shows "level (length U) k rs = []"
proof (rule ccontr)
  assume ne: "level (length U) k rs \<noteq> []"
  have all: "level j k rs \<noteq> []" if "j \<le> length U" for j
  proof
    assume "level j k rs = []"
    from level_empty_later[OF this, of "length U - j"] that ne show False by simp
  qed
  have "length (levels d k rs) \<ge> d" if "d \<le> Suc (length U)" for d
    using that
  proof (induction d)
    case 0 then show ?case by simp
  next
    case (Suc d)
    then have "level d k rs \<noteq> []" using all[of d] by simp
    then have "length (level d k rs) \<ge> 1" by (cases "level d k rs") auto
    moreover have "levels (Suc d) k rs = levels d k rs @ level d k rs" by (simp add: levels_def)
    ultimately show ?case using Suc by simp
  qed
  then have "length (levels (Suc (length U)) k rs) \<ge> Suc (length U)" by simp
  moreover from forest_levels_distinct[OF f, of "Suc (length U)"]
  have "card (set (levels (Suc (length U)) k rs)) = length (levels (Suc (length U)) k rs)"
       "set (levels (Suc (length U)) k rs) \<subseteq> set U"
    by (auto simp: distinct_card)
  moreover have "card (set (levels (Suc (length U)) k rs)) \<le> card (set U)"
    using calculation(3) by (simp add: card_mono)
  moreover have "card (set U) \<le> length U" by (rule card_length)
  ultimately show False by simp
qed

lemma levels_Nil: "levels d k [] = []"
  by (simp add: levels_def level_Nil)

lemma levels_Suc: "levels (Suc d) k xs = xs @ levels d k (kids_of k xs)"
proof -
  have "[0..<Suc d] = 0 # map Suc [0..<d]" by (simp add: upt_conv_Cons map_Suc_upt del: upt_Suc)
  then show ?thesis by (simp add: levels_def comp_def del: upt_Suc)
qed

lemma levels_snoc: "levels (Suc d) k xs = levels d k xs @ level d k xs"
  by (simp add: levels_def)

lemma mset_levels_append:
  "mset (levels d k (xs @ ys)) = mset (levels d k xs) + mset (levels d k ys)"
proof (induction d)
  case 0
  show ?case by (simp add: levels_def)
next
  case (Suc d)
  then show ?case by (simp add: levels_snoc level_append)
qed

lemma mset_levels_Cons:
  "mset (levels (Suc d) k (n # ns)) =
     {#n#} + mset (levels d k (k (nid n))) + mset (levels (Suc d) k ns)"
  by (simp add: levels_Suc kids_of_Cons mset_levels_append)

lemma flatten_total: "level d k xs = [] \<Longrightarrow> \<exists>ys. flatten d k xs = Some ys"
proof (induction d k xs rule: flatten.induct)
  case (1 fuel k)
  then show ?case by simp
next
  case (2 k n ns)
  then show ?case by simp
next
  case (3 fuel k n ns)
  from "3.prems" have a: "level fuel k (k (nid n)) = []" and b: "level (Suc fuel) k ns = []"
    by (simp_all add: level_Cons del: level.simps)
  have "\<exists>sub. (if k (nid n) \<noteq> [] then flatten fuel k (k (nid n)) else Some []) = Some sub"
    using "3.IH"(1) a by (cases "k (nid n) = []") auto
  then obtain sub where
    s: "(if k (nid n) \<noteq> [] then flatten fuel k (k (nid n)) else Some []) = Some sub" by blast
  from "3.IH"(2)[OF s b] obtain rest where r: "flatten (Suc fuel) k ns = Some rest" by blast
  from s r show ?case by (simp del: flatten.simps add: flatten.simps(3))
qed

lemma flatten_mset: "flatten d k xs = Some ys \<Longrightarrow> mset ys = mset (levels d k xs)"
proof (induction d k xs arbitrary: ys rule: flatten.induct)
  case (1 fuel k)
  then show ?case by (simp add: levels_Nil)
next
  case (2 k n ns)
  then show ?case by simp
next
  case (3 fuel k n ns)
  from "3.prems" obtain sub rest where
    s: "(if k (nid n) \<noteq> [] then flatten fuel k (k (nid n)) else Some []) = Some sub"
    and r: "flatten (Suc fuel) k ns = Some rest" and ys: "ys = n # sub @ rest"
    by (auto simp: bind_eq_Some_conv)
  have "mset sub = mset (levels fuel k (k (nid n)))"
  proof (cases "k (nid n) = []")
    case True
    with s show ?thesis by (simp add: levels_Nil)
  next
    case False
    with s "3.IH"(1) show ?thesis by simp
  qed
  moreover from "3.IH"(2)[OF s r] have "mset rest = mset (levels (Suc fuel) k ns)" .
  ultimately show ?case using ys by (simp add: mset_levels_Cons)
qed

lemma resolve_total: "level d k xs = [] \<Longrightarrow> \<exists>ts. resolve d k xs = Some ts"
proof (induction d k xs rule: resolve.induct)
  case (1 fuel k)
  then show ?case by simp
next
  case (2 k n ns)
  then show ?case by simp
next
  case (3 fuel k n ns)
  from "3.prems" have a: "level fuel k (k (nid n)) = []" and b: "level (Suc fuel) k ns = []"
    by (simp_all add: level_Cons del: level.simps)
  from "3.IH"(1)[OF a] obtain cs where c: "resolve fuel k (k (nid n)) = Some cs" by blast
  from "3.IH"(2)[OF c b] obtain rest where "resolve (Suc fuel) k ns = Some rest" by blast
  with c show ?case by simp
qed

lemma resolve_mset:
  "resolve d k xs = Some ts \<Longrightarrow> mset (concat (map tree_nodes ts)) = mset (levels d k xs)"
proof (induction d k xs arbitrary: ts rule: resolve.induct)
  case (1 fuel k)
  then show ?case by (simp add: levels_Nil)
next
  case (2 k n ns)
  then show ?case by simp
next
  case (3 fuel k n ns)
  from "3.prems" obtain cs rest where
    c: "resolve fuel k (k (nid n)) = Some cs"
    and r: "resolve (Suc fuel) k ns = Some rest" and ts: "ts = Tree n cs # rest"
    by (auto simp: bind_eq_Some_conv)
  from "3.IH"(1)[OF c] "3.IH"(2)[OF c r]
  have "mset (concat (map tree_nodes cs)) = mset (levels fuel k (k (nid n)))"
    "mset (concat (map tree_nodes rest)) = mset (levels (Suc fuel) k ns)" by simp_all
  then show ?case using ts by (simp add: mset_levels_Cons)
qed

lemma tree_ids_nodes: "tree_ids t = map nid (tree_nodes t)"
  by (induction t) (auto simp: map_concat intro!: arg_cong[where f = concat])

lemma forest_flatten:
  assumes f: "forest U rs k" and d: "length U \<le> d"
  shows "\<exists>ys. flatten d k rs = Some ys \<and> distinct ys \<and> set ys \<subseteq> set U \<and> set rs \<subseteq> set ys"
proof -
  from forest_level_vanishes[OF f] d have "level d k rs = []"
    using level_empty_later[of "length U" k rs "d - length U"] by simp
  then obtain ys where ys: "flatten d k rs = Some ys" using flatten_total by blast
  from flatten_mset[OF ys] have m: "mset ys = mset (levels d k rs)" .
  from forest_levels_distinct[OF f, of d] m have "distinct ys" "set ys \<subseteq> set U"
    by (metis mset_eq_imp_distinct_iff, metis mset_eq_setD)
  moreover have "set rs \<subseteq> set ys"
  proof (cases d)
    case 0
    with \<open>level d k rs = []\<close> show ?thesis by simp
  next
    case (Suc e)
    then have "set rs \<subseteq> set (levels d k rs)" by (simp add: levels_Suc)
    with m show ?thesis by (metis mset_eq_setD)
  qed
  ultimately show ?thesis using ys by blast
qed

lemma forest_resolve:
  assumes f: "forest U rs k" and d: "length U \<le> d"
  shows "\<exists>ts. resolve d k rs = Some ts \<and> distinct (concat (map tree_ids ts)) \<and>
              set (concat (map tree_nodes ts)) \<subseteq> set U"
proof -
  from forest_level_vanishes[OF f] d have "level d k rs = []"
    using level_empty_later[of "length U" k rs "d - length U"] by simp
  then obtain ts where ts: "resolve d k rs = Some ts" using resolve_total by blast
  from resolve_mset[OF ts] have m: "mset (concat (map tree_nodes ts)) = mset (levels d k rs)" .
  from forest_levels_distinct[OF f, of d] m
  have dn: "distinct (concat (map tree_nodes ts))" and sub: "set (concat (map tree_nodes ts)) \<subseteq> set U"
    by (metis mset_eq_imp_distinct_iff, metis mset_eq_setD)
  from f have "inj_on nid (set U)" by (simp add: forest_def distinct_map)
  with sub have "inj_on nid (set (concat (map tree_nodes ts)))" by (rule inj_on_subset[rotated])
  with dn have "distinct (map nid (concat (map tree_nodes ts)))" by (simp add: distinct_map)
  moreover have "concat (map tree_ids ts) = map nid (concat (map tree_nodes ts))"
    by (simp add: map_concat comp_def tree_ids_nodes[abs_def])
  ultimately show ?thesis using ts sub by simp
qed

section \<open>The raw linkage is a forest\<close>

lemma buildTree_raw_linkage:
  "buildTree getTime w =
     (case raw_linkage getTime w of (rootNodes, k2) \<Rightarrow>
        do { (roots, k3) \<leftarrow> reorganizeForDisplay (length (nodes w)) getTime rootNodes k2;
             Some (roots, w\<lparr>kids := k3\<rparr>) })"
  by (simp add: buildTree_def raw_linkage_def Let_def split: prod.splits)

lemma reset_children_apply:
  "reset_children ns k i = (if i \<in> set (map nid ns) then [] else k i)"
  unfolding reset_children_def
  by (induction ns arbitrary: k) auto

lemma link_node_alt:
  "link_node A n (k, r) =
     (if has_parent A n then (k(the (parentId n) := k (the (parentId n)) @ [n]), r)
      else (k, r @ [n]))"
  by (auto simp: link_node_def has_parent_def split: option.splits)

lemma fold_link_node:
  "fold (link_node A) P (k, r) =
     (\<lambda>i. k i @ filter (\<lambda>n. has_parent A n \<and> parentId n = Some i) P,
      r @ filter (\<lambda>n. \<not> has_parent A n) P)"
proof (induction P arbitrary: k r)
  case Nil
  show ?case by simp
next
  case (Cons n P)
  show ?case
  proof (cases "has_parent A n")
    case True
    then obtain p where p: "parentId n = Some p" by (auto simp: has_parent_def split: option.splits)
    with True show ?thesis
      by (simp add: link_node_alt Cons.IH fun_eq_iff)
  next
    case False
    then show ?thesis by (simp add: link_node_alt Cons.IH)
  qed
qed

lemma fold_sort_children_mset:
  "mset (fold (\<lambda>n k. k(nid n := sortByTimestamp T (k (nid n)))) ns k i) = mset (k i)"
  by (induction ns arbitrary: k) (simp_all add: sortByTimestamp_def)

lemma fold_sort_children_frame:
  "i \<notin> set (map nid ns) \<Longrightarrow>
   fold (\<lambda>n k. k(nid n := sortByTimestamp T (k (nid n)))) ns k i = k i"
  by (induction ns arbitrary: k) simp_all

lemma forest_perm:
  assumes "forest U rs k" "mset rs' = mset rs" "\<And>i. mset (k' i) = mset (k i)"
  shows "forest U rs' k'"
proof -
  have s: "set rs' = set rs" "distinct rs' = distinct rs"
    using assms(2) by (metis mset_eq_setD, metis mset_eq_imp_distinct_iff)
  have t: "\<And>i. set (k' i) = set (k i)" "\<And>i. distinct (k' i) = distinct (k i)"
    using assms(3) by (metis mset_eq_setD, metis mset_eq_imp_distinct_iff)
  from assms(1) show ?thesis unfolding forest_def s t .
qed

lemma raw_linkage_forest:
  assumes d: "distinct (map nid (nodes w))"
  shows "\<exists>rs k. raw_linkage getTime w = (rs, k) \<and> forest (nodes w) rs k \<and>
                (\<forall>i. i \<notin> set (map nid (nodes w)) \<longrightarrow> k i = kids w i)"
proof -
  let ?A = "nodes w"
  let ?k0 = "reset_children ?A (kids w)"
  let ?k1 = "\<lambda>i. ?k0 i @ filter (\<lambda>n. has_parent ?A n \<and> parentId n = Some i) ?A"
  let ?r1 = "filter (\<lambda>n. \<not> has_parent ?A n) ?A"
  let ?rs = "sortByTimestamp getTime ?r1"
  let ?k2 = "fold (\<lambda>n k. k(nid n := sortByTimestamp getTime (k (nid n)))) ?A ?k1"
  have rl: "raw_linkage getTime w = (?rs, ?k2)"
    by (simp add: raw_linkage_def Let_def fold_link_node)
  from d have dA: "distinct ?A" by (simp add: distinct_map)
  from d have inj: "inj_on nid (set ?A)" by (simp add: distinct_map)
  have k1u: "?k1 (nid u) = filter (\<lambda>n. has_parent ?A n \<and> parentId n = Some (nid u)) ?A"
    if "u \<in> set ?A" for u using that by (simp add: reset_children_apply)
  have f1: "forest ?A ?r1 ?k1"
    unfolding forest_def
  proof (intro conjI ballI impI)
    show "distinct (map nid ?A)" by (rule d)
    show "set ?r1 \<subseteq> set ?A" by auto
    show "distinct ?r1" using dA by simp
  next
    fix u assume u: "u \<in> set ?A"
    show "set (?k1 (nid u)) \<subseteq> set ?A" by (auto simp: k1u[OF u])
    show "distinct (?k1 (nid u))" using dA by (simp add: k1u[OF u])
    show "set (?k1 (nid u)) \<inter> set ?r1 = {}" by (auto simp: k1u[OF u])
  next
    fix u v assume u: "u \<in> set ?A" and v: "v \<in> set ?A" and ne: "u \<noteq> v"
    with inj have "nid u \<noteq> nid v" by (auto simp: inj_on_def)
    then show "set (?k1 (nid u)) \<inter> set (?k1 (nid v)) = {}"
      by (auto simp: k1u[OF u] k1u[OF v])
  qed
  have "forest ?A ?rs ?k2"
  proof (rule forest_perm[OF f1])
    show "mset ?rs = mset ?r1" by (simp add: sortByTimestamp_def)
    show "\<And>i. mset (?k2 i) = mset (?k1 i)" by (rule fold_sort_children_mset)
  qed
  moreover have "?k2 i = kids w i" if "i \<notin> set (map nid ?A)" for i
  proof -
    from that have "\<not> (\<exists>n \<in> set ?A. has_parent ?A n \<and> parentId n = Some i)"
      by (auto simp: has_parent_def)
    then have "filter (\<lambda>n. has_parent ?A n \<and> parentId n = Some i) ?A = []"
      by (simp add: filter_empty_conv)
    with that show ?thesis by (simp add: fold_sort_children_frame reset_children_apply)
  qed
  ultimately show ?thesis using rl by blast
qed

section \<open>The reorganization places every node at most once\<close>

lemma forest_inj: "forest U rs k \<Longrightarrow> inj_on nid (set U)"
  by (simp add: forest_def distinct_map)

lemma forest_push_children:
  assumes f: "forest U rs k" and p: "p \<in> set U" and ms: "set ms \<subseteq> set U" "distinct ms"
    and fresh: "set ms \<inter> placed U rs k = {}"
  shows "forest U rs (k(nid p := k (nid p) @ ms))"
proof -
  let ?k = "k(nid p := k (nid p) @ ms)"
  from f have inj: "inj_on nid (set U)" by (rule forest_inj)
  have kp: "?k (nid u) = (if u = p then k (nid p) @ ms else k (nid u))" if "u \<in> set U" for u
    using that p inj by (auto simp: inj_on_def)
  have fr: "set ms \<inter> set rs = {}" "\<And>u. u \<in> set U \<Longrightarrow> set ms \<inter> set (k (nid u)) = {}"
    using fresh by (auto simp: placed_def)
  show ?thesis unfolding forest_def
  proof (intro conjI ballI impI)
    show "distinct (map nid U)" "set rs \<subseteq> set U" "distinct rs"
      using f by (simp_all add: forest_def)
  next
    fix u assume u: "u \<in> set U"
    with f have a: "set (k (nid u)) \<subseteq> set U" "distinct (k (nid u))" "set (k (nid u)) \<inter> set rs = {}"
      by (auto simp: forest_def)
    from f p have b: "set (k (nid p)) \<subseteq> set U" "distinct (k (nid p))" "set (k (nid p)) \<inter> set rs = {}"
      by (auto simp: forest_def)
    show "set (?k (nid u)) \<subseteq> set U" unfolding kp[OF u] using a b ms by auto
    show "distinct (?k (nid u))" unfolding kp[OF u] using a b ms fr(2)[OF p] by auto
    show "set (?k (nid u)) \<inter> set rs = {}" unfolding kp[OF u] using a b fr(1) by auto
  next
    fix u v assume u: "u \<in> set U" and v: "v \<in> set U" and ne: "u \<noteq> v"
    with f have "set (k (nid u)) \<inter> set (k (nid v)) = {}" by (auto simp: forest_def)
    with fr(2)[OF u] fr(2)[OF v] ne show "set (?k (nid u)) \<inter> set (?k (nid v)) = {}"
      unfolding kp[OF u] kp[OF v] by auto
  qed
qed

lemma forest_push_roots:
  assumes f: "forest U rs k" and ms: "set ms \<subseteq> set U" "distinct ms"
    and fresh: "set ms \<inter> placed U rs k = {}"
  shows "forest U (rs @ ms) k"
  using assms unfolding forest_def placed_def by auto

lemma placed_push_children:
  assumes "inj_on nid (set U)" "p \<in> set U"
  shows "placed U rs (k(nid p := k (nid p) @ ms)) = placed U rs k \<union> set ms"
proof -
  have kp: "(k(nid p := k (nid p) @ ms)) (nid u) = (if u = p then k (nid p) @ ms else k (nid u))"
    if "u \<in> set U" for u
    using that assms by (auto simp: inj_on_def)
  have "(\<Union>u \<in> set U. set ((k(nid p := k (nid p) @ ms)) (nid u))) =
        (\<Union>u \<in> set U. set (if u = p then k (nid p) @ ms else k (nid u)))"
    using kp by (intro SUP_cong) simp_all
  also have "\<dots> = (\<Union>u \<in> set U. set (k (nid u))) \<union> set ms"
    using assms(2) by (auto split: if_splits)
  finally show ?thesis by (auto simp: placed_def)
qed

lemma placed_push_roots: "placed U (rs @ ms) k = placed U rs k \<union> set ms"
  by (auto simp: placed_def)

lemma turn_inv_mark:
  assumes "turn_inv U P s" "x \<notin> usedNodes s"
  shows "turn_inv U (insert x P) (s\<lparr>usedNodes := insert x (usedNodes s)\<rparr>)"
  using assms by (auto simp: turn_inv_def)

lemma turn_inv_push_child:
  assumes i: "turn_inv U P s" and n: "n \<in> set U" "nid n \<in> P" and p: "p \<in> set U"
  shows "turn_inv U (P - {nid n}) (s\<lparr>ch := (ch s)(nid p := ch s (nid p) @ [n])\<rparr>)"
proof -
  from i have f: "forest U (newRoots s) (ch s)" by (simp add: turn_inv_def)
  from i n(2) have "n \<notin> placed U (newRoots s) (ch s)" by (auto simp: turn_inv_def)
  then have fr: "set [n] \<inter> placed U (newRoots s) (ch s) = {}" by simp
  from forest_push_children[OF f p _ _ fr] n(1)
  have "forest U (newRoots s) ((ch s)(nid p := ch s (nid p) @ [n]))" by simp
  moreover have "placed U (newRoots s) ((ch s)(nid p := ch s (nid p) @ [n])) =
                 placed U (newRoots s) (ch s) \<union> {n}"
    using placed_push_children[OF forest_inj[OF f] p, of "newRoots s" "ch s" "[n]"] by simp
  ultimately show ?thesis using i n(2) by (auto simp: turn_inv_def)
qed

lemma turn_inv_push_root:
  assumes i: "turn_inv U P s" and n: "n \<in> set U" "nid n \<in> P"
  shows "turn_inv U (P - {nid n}) (s\<lparr>newRoots := newRoots s @ [n]\<rparr>)"
proof -
  from i have f: "forest U (newRoots s) (ch s)" by (simp add: turn_inv_def)
  from i n(2) have "n \<notin> placed U (newRoots s) (ch s)" by (auto simp: turn_inv_def)
  then have fr: "set [n] \<inter> placed U (newRoots s) (ch s) = {}" by simp
  from forest_push_roots[OF f _ _ fr] n(1)
  have "forest U (newRoots s @ [n]) (ch s)" by simp
  then show ?thesis using i n(2) by (auto simp: turn_inv_def placed_push_roots)
qed

lemma add_child_inv:
  assumes i: "turn_inv U P s" and "ai \<in> set U" "n \<in> set U"
  shows "turn_inv U P (add_child ai n s)"
proof (cases "nid n \<in> usedNodes s")
  case True
  with i show ?thesis by (simp add: add_child_def)
next
  case False
  from i False have nP: "nid n \<notin> P" by (auto simp: turn_inv_def)
  from turn_inv_mark[OF i False] have "turn_inv U (insert (nid n) P) (s\<lparr>usedNodes := insert (nid n) (usedNodes s)\<rparr>)" .
  from turn_inv_push_child[OF this assms(3) _ assms(2)] nP False show ?thesis
    by (simp add: add_child_def)
qed

lemma attach_results_inv:
  assumes i: "turn_inv U P s" and t: "tool \<in> set U" and rs: "set rs \<subseteq> set U" "distinct rs"
  shows "turn_inv U P (attach_results rs tool s)"
proof -
  let ?ms = "filter (\<lambda>r. parentId r = Some (nid tool) \<and> nid r \<notin> usedNodes s) rs"
  from i have f: "forest U (newRoots s) (ch s)" by (simp add: turn_inv_def)
  have ms: "set ?ms \<subseteq> set U" "distinct ?ms" using rs by auto
  from i have fr: "set ?ms \<inter> placed U (newRoots s) (ch s) = {}" by (auto simp: turn_inv_def)
  have "forest U (newRoots s) ((ch s)(nid tool := ch s (nid tool) @ ?ms))"
    by (rule forest_push_children[OF f t ms fr])
  moreover have "placed U (newRoots s) ((ch s)(nid tool := ch s (nid tool) @ ?ms)) =
                 placed U (newRoots s) (ch s) \<union> set ?ms"
    by (rule placed_push_children[OF forest_inj[OF f] t])
  ultimately show ?thesis using i
    by (auto simp: turn_inv_def attach_results_def Let_def)
qed

lemma add_tool_inv:
  assumes i: "turn_inv U P s" and "ai \<in> set U" "tool \<in> set U" "set rs \<subseteq> set U" "distinct rs"
  shows "turn_inv U P (add_tool ai rs tool s)"
proof (cases "nid tool \<in> usedNodes s")
  case True
  with i show ?thesis by (simp add: add_tool_def)
next
  case False
  from i False have nP: "nid tool \<notin> P" by (auto simp: turn_inv_def)
  let ?s1 = "attach_results rs tool (s\<lparr>usedNodes := insert (nid tool) (usedNodes s)\<rparr>)"
  from attach_results_inv[OF turn_inv_mark[OF i False] assms(3,4,5)]
  have "turn_inv U (insert (nid tool) P) ?s1" .
  from turn_inv_push_child[OF this assms(3) _ assms(2)] nP False show ?thesis
    by (simp add: add_tool_def Let_def)
qed

lemma add_root_inv:
  assumes i: "turn_inv U P s" and "n \<in> set U" "set rs \<subseteq> set U" "distinct rs"
  shows "turn_inv U P (add_root rs n s)"
proof (cases "ntype n \<noteq> Tool_result \<and> nid n \<notin> usedNodes s")
  case False
  with i show ?thesis by (auto simp: add_root_def)
next
  case True
  then have u: "nid n \<notin> usedNodes s" by simp
  from i u have nP: "nid n \<notin> P" by (auto simp: turn_inv_def)
  let ?s1 = "attach_results rs n (s\<lparr>usedNodes := insert (nid n) (usedNodes s)\<rparr>)"
  from attach_results_inv[OF turn_inv_mark[OF i u] assms(2,3,4)]
  have "turn_inv U (insert (nid n) P) ?s1" .
  from turn_inv_push_root[OF this assms(2)] nP True show ?thesis
    by (simp add: add_root_def Let_def)
qed

lemma fold_invariant:
  assumes "\<And>x s. x \<in> set xs \<Longrightarrow> I s \<Longrightarrow> I (f x s)" and "I s"
  shows "I (fold f xs s)"
  using assms by (induction xs arbitrary: s) auto

lemma within_refl: "within U X s s"
  by (simp add: within_def)

lemma within_trans: "within U X s0 s1 \<Longrightarrow> within U X s1 s2 \<Longrightarrow> within U X s0 s2"
  by (auto simp: within_def)

lemma within_mono: "within U X s0 s \<Longrightarrow> X \<subseteq> Y \<Longrightarrow> within U Y s0 s"
  unfolding within_def by blast

lemma add_child_within:
  "ai \<in> set U \<Longrightarrow> n \<in> X \<Longrightarrow> within U X s (add_child ai n s)"
  by (auto simp: within_def add_child_def)

lemma attach_results_within:
  "tool \<in> set U \<Longrightarrow> set rs \<subseteq> X \<Longrightarrow> within U X s (attach_results rs tool s)"
  by (auto simp: within_def attach_results_def Let_def)

lemma add_tool_within:
  "ai \<in> set U \<Longrightarrow> tool \<in> set U \<Longrightarrow> tool \<in> X \<Longrightarrow> set rs \<subseteq> X \<Longrightarrow>
   within U X s (add_tool ai rs tool s)"
  by (auto simp: within_def add_tool_def attach_results_def Let_def)

lemma add_root_within:
  "n \<in> set U \<Longrightarrow> n \<in> X \<Longrightarrow> set rs \<subseteq> X \<Longrightarrow> within U X s (add_root rs n s)"
  by (auto simp: within_def add_root_def attach_results_def Let_def)

lemma fold_within:
  assumes "\<And>x s. x \<in> set xs \<Longrightarrow> within U X s (f x s)"
  shows "within U X s (fold f xs s)"
  by (rule fold_invariant[where I = "within U X s"])
     (auto intro: within_trans assms within_refl)

lemma turn_inv_sort:
  assumes "turn_inv U P s"
  shows "turn_inv U P (s\<lparr>ch := (ch s)(i := sortByTimestamp T (ch s i))\<rparr>)"
proof -
  let ?k = "(ch s)(i := sortByTimestamp T (ch s i))"
  have m: "\<And>j. mset (?k j) = mset (ch s j)" by (simp add: sortByTimestamp_def)
  then have st: "\<And>j. set (?k j) = set (ch s j)" by (metis mset_eq_setD)
  from assms have "forest U (newRoots s) (ch s)" by (simp add: turn_inv_def)
  from forest_perm[OF this refl m] have "forest U (newRoots s) ?k" .
  moreover have "placed U (newRoots s) ?k = placed U (newRoots s) (ch s)"
    unfolding placed_def st ..
  ultimately show ?thesis using assms by (simp add: turn_inv_def)
qed

lemma sort_within: "i \<in> nid ` set U \<Longrightarrow>
  within U X s (s\<lparr>ch := (ch s)(i := sortByTimestamp T (ch s i))\<rparr>)"
  by (auto simp: within_def)

lemma turn_inv_turn:
  assumes i: "turn_inv U {} s0" and t: "t \<in> set U" "nid t \<notin> usedNodes s0" and dU: "distinct U"
  shows "turn_inv U {} (turn T U t nx s0) \<and>
         within U (insert t (window T U t nx)) s0 (turn T U t nx s0)"
proof -
  let ?X = "insert t (window T U t nx)"
  define s1 where "s1 = s0\<lparr>usedNodes := insert (nid t) (usedNodes s0)\<rparr>"
  define TN where "TN = filter (\<lambda>n.
              n \<noteq> t \<and> nid n \<notin> usedNodes s1 \<and>
              T (timestamp n) > T (timestamp t) \<and>
              (case nx of
                 None \<Rightarrow> True
               | Some x \<Rightarrow> T (timestamp n) < T (timestamp x))) U"
  define s2 where "s2 = s1\<lparr>newRoots := newRoots s1 @ [t]\<rparr>"
  define AI where "AI = filter (\<lambda>n. ntype n = Assistant) TN"
  define TR where "TR = filter (\<lambda>n. ntype n = Tool_result) TN"
  have TN: "set TN \<subseteq> set U" "distinct TN" "set TN \<subseteq> window T U t nx"
       "\<And>n. n \<in> set TN \<Longrightarrow> nid n \<notin> usedNodes s2"
    using dU by (auto simp: TN_def window_def s2_def)
  have TR: "set TR \<subseteq> set U" "distinct TR" "set TR \<subseteq> ?X"
    using TN by (auto simp: TR_def)
  have i1: "turn_inv U {nid t} s1" using turn_inv_mark[OF i t(2)] by (simp add: s1_def)
  have i2: "turn_inv U {} s2" using turn_inv_push_root[OF i1 t(1)] by (simp add: s2_def)
  have w2: "within U ?X s0 s2" by (auto simp: within_def s2_def s1_def)
  show ?thesis
  proof (cases "AI = []")
    case True
    have eq: "turn T U t nx s0 = fold (add_root TR) TN s2"
      using True by (simp add: turn_def Let_def s1_def s2_def TN_def AI_def TR_def)
    have "turn_inv U {} (fold (add_root TR) TN s2)"
      by (rule fold_invariant[where I = "turn_inv U {}"])
         (use TN TR i2 in \<open>auto intro!: add_root_inv\<close>)
    moreover have "within U ?X s2 (fold (add_root TR) TN s2)"
      by (rule fold_within) (use TN TR in \<open>auto intro!: add_root_within\<close>)
    ultimately show ?thesis using eq w2 within_trans by metis
  next
    case False
    define ai where "ai = last AI"
    define s3 where "s3 = s2\<lparr>usedNodes := insert (nid ai) (usedNodes s2)\<rparr>"
    define s4 where "s4 = fold (add_child ai) (filter (\<lambda>n. ntype n = Thinking) TN) s3"
    define s5 where "s5 = fold (add_tool ai TR) (filter is_tool_family TN) s4"
    define s6 where "s6 = fold (add_child ai) (filter (\<lambda>n. n \<noteq> ai) AI) s5"
    define s7 where "s7 = s6\<lparr>ch := (ch s6)(nid ai := sortByTimestamp T (ch s6 (nid ai)))\<rparr>"
    have eq: "turn T U t nx s0 = s7\<lparr>newRoots := newRoots s7 @ [ai]\<rparr>"
      using False
      by (simp add: turn_def Let_def s1_def s2_def TN_def AI_def TR_def ai_def s3_def s4_def
                    s5_def s6_def s7_def)
    from False have "ai \<in> set AI" by (simp add: ai_def)
    then have ai: "ai \<in> set TN" "ai \<in> set U" "ai \<in> ?X" using TN by (auto simp: AI_def)
    have i3: "turn_inv U {nid ai} s3"
      using turn_inv_mark[OF i2 TN(4)[OF ai(1)]] by (simp add: s3_def)
    have w3: "within U ?X s2 s3" using ai by (auto simp: within_def s3_def)
    have i4: "turn_inv U {nid ai} s4" unfolding s4_def
      by (rule fold_invariant[where I = "turn_inv U {nid ai}"])
         (use TN ai i3 in \<open>auto intro!: add_child_inv\<close>)
    have w4: "within U ?X s3 s4" unfolding s4_def
      by (rule fold_within) (use TN ai in \<open>auto intro!: add_child_within\<close>)
    have i5: "turn_inv U {nid ai} s5" unfolding s5_def
      by (rule fold_invariant[where I = "turn_inv U {nid ai}"])
         (use TN TR ai i4 in \<open>auto intro!: add_tool_inv\<close>)
    have w5: "within U ?X s4 s5" unfolding s5_def
      by (rule fold_within) (use TN TR ai in \<open>auto intro!: add_tool_within\<close>)
    have i6: "turn_inv U {nid ai} s6" unfolding s6_def
      by (rule fold_invariant[where I = "turn_inv U {nid ai}"])
         (use TN ai i5 in \<open>auto simp: AI_def intro!: add_child_inv\<close>)
    have w6: "within U ?X s5 s6" unfolding s6_def
      by (rule fold_within) (use TN ai in \<open>auto simp: AI_def intro!: add_child_within\<close>)
    have i7: "turn_inv U {nid ai} s7" unfolding s7_def by (rule turn_inv_sort[OF i6])
    have w7: "within U ?X s6 s7" unfolding s7_def using ai by (intro sort_within) auto
    have i8: "turn_inv U {} (s7\<lparr>newRoots := newRoots s7 @ [ai]\<rparr>)"
      using turn_inv_push_root[OF i7 ai(2)] by simp
    have w8: "within U ?X s7 (s7\<lparr>newRoots := newRoots s7 @ [ai]\<rparr>)"
      by (auto simp: within_def)
    from w2 w3 w4 w5 w6 w7 w8 have "within U ?X s0 (s7\<lparr>newRoots := newRoots s7 @ [ai]\<rparr>)"
      by (meson within_trans)
    with i8 eq show ?thesis by simp
  qed
qed

lemma turns_inv:
  assumes "turn_inv U {} s" and dU: "distinct U" and inj: "inj_on nid (set U)"
    and "set ts \<subseteq> set U" "distinct ts" "sorted (map (\<lambda>n. T (timestamp n)) ts)"
    and "\<forall>t \<in> set ts. nid t \<notin> usedNodes s"
  shows "turn_inv U {} (turns T U ts s) \<and>
         (\<forall>i. i \<notin> nid ` set U \<longrightarrow> ch (turns T U ts s) i = ch s i)"
  using assms(1,4-)
proof (induction ts arbitrary: s)
  case Nil
  then show ?case by simp
next
  case (Cons t rest)
  define nx where "nx = (case rest of [] \<Rightarrow> None | x # _ \<Rightarrow> Some x)"
  define s' where "s' = turn T U t nx s"
  from Cons.prems have t: "t \<in> set U" "nid t \<notin> usedNodes s" by auto
  from turn_inv_turn[OF Cons.prems(1) t dU, of T nx]
  have i': "turn_inv U {} s'" and w: "within U (insert t (window T U t nx)) s s'"
    by (simp_all add: s'_def)
  have fresh: "\<forall>r \<in> set rest. nid r \<notin> usedNodes s'"
  proof
    fix r assume r: "r \<in> set rest"
    with Cons.prems have rU: "r \<in> set U" and rt: "r \<noteq> t" and ru: "nid r \<notin> usedNodes s" by auto
    from r obtain x xs where rest: "rest = x # xs" by (cases rest) auto
    with r Cons.prems(4) have "T (timestamp x) \<le> T (timestamp r)" by auto
    then have "r \<notin> window T U t nx" by (auto simp: window_def nx_def rest)
    moreover have "window T U t nx \<subseteq> set U" by (auto simp: window_def)
    ultimately have "nid r \<notin> nid ` insert t (window T U t nx)"
      using inj rU rt t(1) by (auto simp: inj_on_def)
    with w ru show "nid r \<notin> usedNodes s'" by (auto simp: within_def)
  qed
  from Cons.prems have "set rest \<subseteq> set U" "distinct rest" "sorted (map (\<lambda>n. T (timestamp n)) rest)"
    by auto
  from Cons.IH[OF i' this fresh] w show ?case
    by (simp add: s'_def nx_def within_def)
qed

lemma reorganize_forest:
  assumes f: "forest A rs k"
  shows "\<exists>roots k3 U. reorganizeForDisplay (length A) T rs k = Some (roots, k3) \<and>
           forest U roots k3 \<and> set U \<subseteq> set A \<and> (\<forall>i. i \<notin> nid ` set A \<longrightarrow> k3 i = k i)"
proof -
  from forest_flatten[OF f order_refl] obtain flat where
    fl: "flatten (length A) k rs = Some flat" "distinct flat" "set flat \<subseteq> set A" "set rs \<subseteq> set flat"
    by blast
  from f have injA: "inj_on nid (set A)" by (rule forest_inj)
  show ?thesis
  proof (cases "flat = []")
    case True
    with fl have "rs = []" by simp
    with True fl have "reorganizeForDisplay (length A) T rs k = Some ([], k)"
      by (simp add: reorganizeForDisplay_def)
    moreover have "forest [] [] k" by (simp add: forest_def)
    ultimately show ?thesis by (intro exI[of _ "[]"] exI[of _ k]) simp
  next
    case False
    define k1 where "k1 = reset_children flat k"
    define U where "U = sortByTimestamp T flat"
    define ts where "ts = filter (\<lambda>n. ntype n = User \<or> ntype n = System) U"
    have U: "set U = set flat" "distinct U" using fl by (simp_all add: U_def sortByTimestamp_def)
    with fl have UA: "set U \<subseteq> set A" by simp
    with injA have injU: "inj_on nid (set U)" by (rule inj_on_subset)
    with U have dU: "distinct (map nid U)" by (simp add: distinct_map)
    have k1U: "\<And>u. u \<in> set U \<Longrightarrow> k1 (nid u) = []"
      using U by (auto simp: k1_def reset_children_apply)
    have k1fr: "\<And>i. i \<notin> nid ` set A \<Longrightarrow> k1 i = k i"
      using fl by (auto simp: k1_def reset_children_apply)
    show ?thesis
    proof (cases "ts = []")
      case True
      with False fl have "reorganizeForDisplay (length A) T rs k = Some (rs, k1)"
        by (simp add: reorganizeForDisplay_def Let_def k1_def U_def ts_def)
      moreover have "forest U rs k1"
        using f fl U dU k1U by (auto simp: forest_def)
      ultimately show ?thesis using UA k1fr by blast
    next
      case ne: False
      define s0 where "s0 = \<lparr>usedNodes = {}, newRoots = [], ch = k1\<rparr>"
      have eq: "reorganizeForDisplay (length A) T rs k =
                  Some (newRoots (turns T U ts s0), ch (turns T U ts s0))"
        using ne False fl
        by (simp add: reorganizeForDisplay_def Let_def k1_def U_def ts_def s0_def)
      have i0: "turn_inv U {} s0"
        using dU k1U by (auto simp: turn_inv_def forest_def placed_def s0_def)
      have "sorted (map (\<lambda>n. T (timestamp n)) U)"
        by (simp add: U_def sortByTimestamp_def)
      then have srt: "sorted (map (\<lambda>n. T (timestamp n)) ts)"
        unfolding ts_def by (rule sorted_filter)
      have tsU: "set ts \<subseteq> set U" "distinct ts" using U by (auto simp: ts_def)
      have "\<forall>t \<in> set ts. nid t \<notin> usedNodes s0" by (simp add: s0_def)
      from turns_inv[OF i0 U(2) injU tsU srt this]
      have "forest U (newRoots (turns T U ts s0)) (ch (turns T U ts s0))"
        and "\<forall>i. i \<notin> nid ` set U \<longrightarrow> ch (turns T U ts s0) i = k1 i"
        by (simp_all add: turn_inv_def s0_def)
      moreover have "\<forall>i. i \<notin> nid ` set A \<longrightarrow> ch (turns T U ts s0) i = k i"
      proof (intro allI impI)
        fix i assume a: "i \<notin> nid ` set A"
        with UA have "i \<notin> nid ` set U" by blast
        with calculation(2) have "ch (turns T U ts s0) i = k1 i" by blast
        with k1fr[OF a] show "ch (turns T U ts s0) i = k i" by simp
      qed
      ultimately show ?thesis using eq UA by blast
    qed
  qed
qed

section \<open>What the reorganization keeps\<close>




lemma pending_minus:
  assumes "inj_on nid (set U)" "n \<in> set U"
  shows "{x \<in> set U. nid x \<in> P - {nid n}} = {x \<in> set U. nid x \<in> P} - {n}"
  using assms by (auto simp: inj_on_def)



















section \<open>Properties of the snapshot\<close>

lemma buildTree_forest:
  assumes d: "distinct (map nid (nodes w))"
  shows "\<exists>roots k3 U. buildTree T w = Some (roots, w\<lparr>kids := k3\<rparr>) \<and>
           forest U roots k3 \<and> set U \<subseteq> set (nodes w) \<and>
           (\<forall>i. i \<notin> set (map nid (nodes w)) \<longrightarrow> k3 i = kids w i)"
proof -
  from raw_linkage_forest[OF d, of T] obtain rs k where
    rl: "raw_linkage T w = (rs, k)" and f: "forest (nodes w) rs k"
    and fr: "\<forall>i. i \<notin> set (map nid (nodes w)) \<longrightarrow> k i = kids w i" by blast
  from reorganize_forest[OF f, of T] obtain roots k3 U where
    r: "reorganizeForDisplay (length (nodes w)) T rs k = Some (roots, k3)"
    and f3: "forest U roots k3" and U: "set U \<subseteq> set (nodes w)"
    and fr3: "\<forall>i. i \<notin> nid ` set (nodes w) \<longrightarrow> k3 i = k i" by blast
  from rl r have "buildTree T w = Some (roots, w\<lparr>kids := k3\<rparr>)"
    by (simp add: buildTree_raw_linkage)
  moreover from fr fr3 have "\<forall>i. i \<notin> set (map nid (nodes w)) \<longrightarrow> k3 i = kids w i" by simp
  ultimately show ?thesis using f3 U by blast
qed

lemma forest_length:
  assumes "forest U rs k" "set U \<subseteq> set A"
  shows "length U \<le> length A"
proof -
  from assms(1) have "distinct U" by (simp add: forest_def distinct_map)
  then have "length U = card (set U)" by (simp add: distinct_card)
  also have "\<dots> \<le> card (set A)" using assms(2) by (simp add: card_mono)
  also have "\<dots> \<le> length A" by (rule card_length)
  finally show ?thesis .
qed

lemma getNodes_forest:
  assumes d: "distinct (map nid (nodes w))"
  shows "\<exists>ts k3. getNodes T w = Some (ts, w\<lparr>kids := k3\<rparr>) \<and>
           distinct (concat (map tree_ids ts)) \<and>
           set (concat (map tree_nodes ts)) \<subseteq> set (nodes w) \<and>
           (\<forall>i. i \<notin> set (map nid (nodes w)) \<longrightarrow> k3 i = kids w i)"
proof -
  from buildTree_forest[OF d, of T] obtain roots k3 U where
    b: "buildTree T w = Some (roots, w\<lparr>kids := k3\<rparr>)" and f: "forest U roots k3"
    and U: "set U \<subseteq> set (nodes w)"
    and fr: "\<forall>i. i \<notin> set (map nid (nodes w)) \<longrightarrow> k3 i = kids w i" by blast
  from forest_length[OF f U] have "length U \<le> Suc (length (nodes w))" by simp
  from forest_resolve[OF f this] obtain ts where
    ts: "resolve (Suc (length (nodes w))) k3 roots = Some ts"
        "distinct (concat (map tree_ids ts))" "set (concat (map tree_nodes ts)) \<subseteq> set U"
    by blast
  from b ts(1) have "getNodes T w = Some (ts, w\<lparr>kids := k3\<rparr>)" by (simp add: getNodes_def)
  with ts U fr show ?thesis by blast
qed






lemma raw_linkage_cong:
  assumes "nodes w' = nodes w"
    and "\<And>i. i \<notin> set (map nid (nodes w)) \<Longrightarrow> kids w' i = kids w i"
  shows "raw_linkage T w' = raw_linkage T w"
proof -
  have "reset_children (nodes w) (kids w') = reset_children (nodes w) (kids w)"
    using assms(2) by (auto simp: reset_children_apply fun_eq_iff)
  with assms(1) show ?thesis by (simp add: raw_linkage_def)
qed

lemma getNodes_cong:
  assumes "nodes w' = nodes w"
    and "\<And>i. i \<notin> set (map nid (nodes w)) \<Longrightarrow> kids w' i = kids w i"
  shows "map_option (\<lambda>(ts, v). (ts, kids v)) (getNodes T w') =
         map_option (\<lambda>(ts, v). (ts, kids v)) (getNodes T w)"
proof -
  have rl: "raw_linkage T w' = raw_linkage T w" by (rule raw_linkage_cong[OF assms])
  obtain rs k where rk: "raw_linkage T w = (rs, k)" by (cases "raw_linkage T w")
  show ?thesis
  proof (cases "reorganizeForDisplay (length (nodes w)) T rs k")
    case None
    then show ?thesis by (simp add: getNodes_def buildTree_raw_linkage rl rk assms(1))
  next
    case (Some p)
    obtain roots k3 where p: "p = (roots, k3)" by (cases p)
    with Some show ?thesis
      by (cases "resolve (Suc (length (nodes w))) k3 roots")
         (simp_all add: getNodes_def buildTree_raw_linkage rl rk assms(1))
  qed
qed

text \<open>
  C5. For a registry, the snapshot operation returns a tree and leaves the watcher with
  the rebuilt \<open>children\<close> arrays; invoked again on that watcher, with no upsert in
  between, it returns the same tree (the same nodes, edges and sibling order) and
  leaves the same \<open>children\<close> arrays.
\<close>

theorem C5_idempotent_rebuild:
  assumes "distinct (map nid (nodes w))"
  shows "\<exists>ts w'. getNodes getTime w = Some (ts, w') \<and> getNodes getTime w' = Some (ts, w')"
proof -
  from getNodes_forest[OF assms, of getTime] obtain ts k3 where
    g: "getNodes getTime w = Some (ts, w\<lparr>kids := k3\<rparr>)"
    and fr: "\<forall>i. i \<notin> set (map nid (nodes w)) \<longrightarrow> k3 i = kids w i" by blast
  let ?w' = "w\<lparr>kids := k3\<rparr>"
  have "map_option (\<lambda>(ts, v). (ts, kids v)) (getNodes getTime ?w') =
        map_option (\<lambda>(ts, v). (ts, kids v)) (getNodes getTime w)"
    by (rule getNodes_cong) (use fr in auto)
  with g have k: "map_option (\<lambda>(ts, v). (ts, kids v)) (getNodes getTime ?w') = Some (ts, k3)"
    by simp
  from assms have "distinct (map nid (nodes ?w'))" by simp
  from getNodes_forest[OF this, of getTime] obtain ts' k3' where
    g': "getNodes getTime ?w' = Some (ts', ?w'\<lparr>kids := k3'\<rparr>)" by blast
  with k have "ts' = ts" "k3' = k3" by auto
  with g' have "getNodes getTime ?w' = Some (ts, ?w')" by simp
  with g show ?thesis by blast
qed

theorem C5_idempotent_rebuild_witness:
  "distinct (map nid (nodes scenario_registry)) \<and>
   (\<exists>ts w'. getNodes log_time scenario_registry = Some (ts, w') \<and>
      getNodes log_time w' = Some (ts, w'))"
proof -
  have d: "distinct (map nid (nodes scenario_registry))"
    by (simp add: scenario_registry_def plain_node_def)
  from C5_idempotent_rebuild[OF d, of log_time] d show ?thesis by blast
qed

section \<open>Properties of sequences of reads\<close>

lemma map_nid_set_node:
  "map nid (set_node n ns) = (if nid n \<in> set (map nid ns) then map nid ns else map nid ns @ [nid n])"
  by (induction ns) auto

lemma upsert_wf: "wf_watcher w \<Longrightarrow> wf_watcher (upsert n w)"
  by (auto simp: wf_watcher_def upsert_def map_nid_set_node)

lemma fold_upsert_wf: "wf_watcher w \<Longrightarrow> wf_watcher (fold upsert ns w)"
  by (induction ns arbitrary: w) (simp_all add: upsert_wf)

lemma fold_upsert_fields:
  "nodes (fold upsert ns w) = fold set_node ns (nodes w) \<and>
   processedLines (fold upsert ns w) = processedLines w \<and>
   lastLineCount (fold upsert ns w) = lastLineCount w"
  by (induction ns arbitrary: w) (simp_all add: upsert_def)

lemma processLine_line_nodes:
  "processLine parse stringify line w =
     (fold upsert (line_nodes parse stringify line) w,
      (case line_nodes parse stringify line of [] \<Rightarrow> None | n # _ \<Rightarrow> Some n))"
proof (cases "parse line")
  case None
  then show ?thesis by (simp add: processLine_def line_nodes_def)
next
  case (Some v)
  show ?thesis
  proof (cases v)
    case (JObj kvs)
    with Some show ?thesis
      by (simp add: processLine_def line_nodes_def Let_def split: option.splits list.splits)
  qed (use Some in \<open>simp_all add: processLine_def line_nodes_def\<close>)
qed

lemma ingest_line_eq:
  "ingest_line parse stringify line (w, b) =
     (if isValidJsonLine parse line \<and> hashLine parse line \<notin> processedLines w
      then (fold upsert (line_nodes parse stringify line)
              (w\<lparr>processedLines := insert (hashLine parse line) (processedLines w)\<rparr>),
            b \<or> line_nodes parse stringify line \<noteq> [])
      else (w, b))"
  by (auto simp: ingest_line_def Let_def processLine_line_nodes split: list.splits)

lemma ingest_line_core:
  assumes "same_core w w'"
  shows "same_core (fst (ingest_line P S l (w, b))) (fst (ingest_line P S l (w', b))) \<and>
         snd (ingest_line P S l (w, b)) = snd (ingest_line P S l (w', b))"
  using assms by (auto simp: ingest_line_eq same_core_def fold_upsert_fields)

lemma fold_ingest_core:
  assumes "same_core w w'"
  shows "same_core (fst (fold (ingest_line P S) ls (w, b))) (fst (fold (ingest_line P S) ls (w', b))) \<and>
         snd (fold (ingest_line P S) ls (w, b)) = snd (fold (ingest_line P S) ls (w', b))"
  using assms
proof (induction ls arbitrary: w w' b)
  case Nil
  then show ?case by simp
next
  case (Cons l ls)
  obtain w1 b1 where 1: "ingest_line P S l (w, b) = (w1, b1)" by (cases "ingest_line P S l (w, b)")
  obtain w2 b2 where 2: "ingest_line P S l (w', b) = (w2, b2)" by (cases "ingest_line P S l (w', b)")
  from ingest_line_core[OF Cons.prems, of P S l b] 1 2 have "same_core w1 w2" "b1 = b2" by simp_all
  with Cons.IH[of w1 w2 b1] 1 2 show ?case by simp
qed

lemma ingest_line_wf:
  "wf_watcher w \<Longrightarrow> wf_watcher (fst (ingest_line P S l (w, b)))"
  by (auto simp: ingest_line_eq intro!: fold_upsert_wf) (simp add: wf_watcher_def)

lemma fold_ingest_wf:
  "wf_watcher w \<Longrightarrow> wf_watcher (fst (fold (ingest_line P S) ls (w, b)))"
proof (induction ls arbitrary: w b)
  case Nil
  then show ?case by simp
next
  case (Cons l ls)
  obtain w1 b1 where 1: "ingest_line P S l (w, b) = (w1, b1)" by (cases "ingest_line P S l (w, b)")
  with ingest_line_wf[OF Cons.prems, of P S l b] have "wf_watcher w1" by simp
  from Cons.IH[OF this, of b1] 1 show ?case by simp
qed

lemma ingest_line_processed:
  "processedLines w \<subseteq> processedLines (fst (ingest_line P S l (w, b))) \<and>
   (isValidJsonLine P l \<longrightarrow> hashLine P l \<in> processedLines (fst (ingest_line P S l (w, b))))"
  by (auto simp: ingest_line_eq fold_upsert_fields)

lemma fold_ingest_processed:
  "processedLines w \<subseteq> processedLines (fst (fold (ingest_line P S) ls (w, b))) \<and>
   seen P ls (fst (fold (ingest_line P S) ls (w, b)))"
proof (induction ls arbitrary: w b)
  case Nil
  then show ?case by (simp add: seen_def)
next
  case (Cons l ls)
  obtain w1 b1 where 1: "ingest_line P S l (w, b) = (w1, b1)" by (cases "ingest_line P S l (w, b)")
  from ingest_line_processed[of w P S l b] 1
  have a: "processedLines w \<subseteq> processedLines w1"
    "isValidJsonLine P l \<longrightarrow> hashLine P l \<in> processedLines w1" by simp_all
  from Cons.IH[of w1 b1]
  have b: "processedLines w1 \<subseteq> processedLines (fst (fold (ingest_line P S) ls (w1, b1)))"
    "seen P ls (fst (fold (ingest_line P S) ls (w1, b1)))" by simp_all
  from a b 1 show ?case by (auto simp: seen_def)
qed

lemma fold_ingest_seen_noop:
  "seen P ls w \<Longrightarrow> fold (ingest_line P S) ls (w, b) = (w, b)"
  by (induction ls) (auto simp: seen_def ingest_line_eq)

lemma fold_ingest_no_new:
  "snd (fold (ingest_line P S) ls (w, False)) = False \<Longrightarrow>
   nodes (fst (fold (ingest_line P S) ls (w, False))) = nodes w"
proof (induction ls arbitrary: w)
  case Nil
  then show ?case by simp
next
  case (Cons l ls)
  obtain w1 b1 where 1: "ingest_line P S l (w, False) = (w1, b1)"
    by (cases "ingest_line P S l (w, False)")
  have mono: "snd (fold (ingest_line P S) xs (v, True)) = True" for xs v
    by (induction xs arbitrary: v) (auto simp: ingest_line_eq)
  from Cons.prems 1 mono[of ls w1] have b1: "b1 = False" by (cases b1) auto
  with 1 have "nodes w1 = nodes w"
    by (auto simp: ingest_line_eq fold_upsert_fields split: if_splits)
  with Cons.IH[of w1] Cons.prems 1 b1 show ?case by simp
qed

lemma fold_ingest_lastLineCount:
  "lastLineCount (fst (fold (ingest_line P S) ls (w, b))) = lastLineCount w"
  by (induction ls arbitrary: w b) (auto simp: ingest_line_eq fold_upsert_fields)

lemma fold_ingest_flag:
  "fold (ingest_line P S) ls (w, b) =
     (fst (fold (ingest_line P S) ls (w, False)), b \<or> snd (fold (ingest_line P S) ls (w, False)))"
proof (induction ls arbitrary: w b)
  case Nil
  show ?case by simp
next
  case (Cons l ls)
  obtain w1 c where 1: "ingest_line P S l (w, False) = (w1, c)"
    by (cases "ingest_line P S l (w, False)")
  then have 2: "ingest_line P S l (w, b) = (w1, b \<or> c)"
    by (auto simp: ingest_line_eq split: if_splits)
  from Cons.IH[of w1 "b \<or> c"] Cons.IH[of w1 c] 1 2 show ?case by auto
qed

lemma getNodes_tree_cong:
  assumes "wf_watcher v" "wf_watcher v'" "nodes v' = nodes v"
  shows "map_option fst (getNodes T v') = map_option fst (getNodes T v)"
proof -
  have "\<And>i. i \<notin> set (map nid (nodes v)) \<Longrightarrow> kids v' i = kids v i"
    using assms by (simp add: wf_watcher_def)
  from getNodes_cong[OF assms(3) this, of T] show ?thesis
    by (cases "getNodes T v'"; cases "getNodes T v") auto
qed

lemma getNodes_wf:
  assumes "wf_watcher v"
  shows "\<exists>t k. getNodes T v = Some (t, v\<lparr>kids := k\<rparr>) \<and> wf_watcher (v\<lparr>kids := k\<rparr>)"
proof -
  from assms have d: "distinct (map nid (nodes v))" by (simp add: wf_watcher_def)
  from getNodes_forest[OF d, of T] obtain ts k3 where
    g: "getNodes T v = Some (ts, v\<lparr>kids := k3\<rparr>)"
    and fr: "\<forall>i. i \<notin> set (map nid (nodes v)) \<longrightarrow> k3 i = kids v i" by blast
  from assms fr have "wf_watcher (v\<lparr>kids := k3\<rparr>)" by (simp add: wf_watcher_def)
  with g show ?thesis by blast
qed

lemma wf_lastLineCount: "wf_watcher (w\<lparr>lastLineCount := x\<rparr>) = wf_watcher w"
  by (simp add: wf_watcher_def)

lemma readFile_wf:
  assumes "wf_watcher w0"
  shows "\<exists>t k. readFile P S T text w0 =
           Some (fst (fold (ingest_line P S) (file_lines text) (w0, False))
                   \<lparr>lastLineCount := length (file_lines text), kids := k\<rparr>, Some t) \<and>
           getNodes T (fst (fold (ingest_line P S) (file_lines text) (w0, False))
                   \<lparr>lastLineCount := length (file_lines text)\<rparr>) =
           Some (t, fst (fold (ingest_line P S) (file_lines text) (w0, False))
                   \<lparr>lastLineCount := length (file_lines text), kids := k\<rparr>) \<and>
           wf_watcher (fst (fold (ingest_line P S) (file_lines text) (w0, False))
                   \<lparr>lastLineCount := length (file_lines text), kids := k\<rparr>)"
proof -
  let ?a = "fst (fold (ingest_line P S) (file_lines text) (w0, False))"
  let ?v = "?a\<lparr>lastLineCount := length (file_lines text)\<rparr>"
  have "wf_watcher ?v" using fold_ingest_wf[OF assms] by (simp add: wf_lastLineCount)
  from getNodes_wf[OF this, of T] obtain t k where
    g: "getNodes T ?v = Some (t, ?v\<lparr>kids := k\<rparr>)" "wf_watcher (?v\<lparr>kids := k\<rparr>)" by blast
  obtain a f where af: "fold (ingest_line P S) (file_lines text) (w0, False) = (a, f)"
    by (cases "fold (ingest_line P S) (file_lines text) (w0, False)")
  with g(1) have "readFile P S T text w0 = Some (?v\<lparr>kids := k\<rparr>, Some t)"
    by (simp add: readFile_def Let_def)
  with g show ?thesis by blast
qed


section \<open>Monotonic ingestion\<close>

text \<open>
  C6. A watcher starts on a file (\<open>readFile\<close> on the text \<open>pre\<close>), the file grows by
  whole lines (the lines of \<open>full\<close> are the lines of \<open>pre\<close> followed by the lines
  \<open>added\<close>), and the change event reads it again (\<open>readNewContent\<close> on \<open>full\<close>). A
  second watcher, from the same initial state, starts on the grown file (\<open>readFile\<close>
  on \<open>full\<close>). Both reads of the first watcher return; the tree that the first watcher
  emitted last (that of the change event if it emitted one, that of the start
  otherwise) is the tree that the second watcher emits, and so is the snapshot of the
  first watcher afterwards; the two watchers end with the same registry, the same
  fingerprints and the same line count.
\<close>

theorem C6_monotonic_ingestion:
  assumes wf: "wf_watcher w0" and app: "file_lines full = file_lines pre @ added"
  shows "\<exists>w1 t1 w2 e2 wa tf.
     readFile parse stringify getTime pre w0 = Some (w1, Some t1) \<and>
     readNewContent parse stringify getTime full w1 = Some (w2, e2) \<and>
     readFile parse stringify getTime full w0 = Some (wa, Some tf) \<and>
     (case e2 of Some t2 \<Rightarrow> t2 | None \<Rightarrow> t1) = tf \<and>
     map_option fst (getNodes getTime w2) = Some tf \<and>
     nodes w2 = nodes wa \<and> processedLines w2 = processedLines wa \<and>
     lastLineCount w2 = lastLineCount wa"
proof -
  let ?I = "ingest_line parse stringify"
  let ?L1 = "file_lines pre"
  define a1 where "a1 = fst (fold ?I ?L1 (w0, False))"
  define aF where "aF = fst (fold ?I (?L1 @ added) (w0, False))"
  from readFile_wf[OF wf, of parse stringify getTime pre] obtain t1 k1 where
    r1: "readFile parse stringify getTime pre w0 =
           Some (a1\<lparr>lastLineCount := length ?L1, kids := k1\<rparr>, Some t1)"
    and g1: "getNodes getTime (a1\<lparr>lastLineCount := length ?L1\<rparr>) =
           Some (t1, a1\<lparr>lastLineCount := length ?L1, kids := k1\<rparr>)"
    and wf1: "wf_watcher (a1\<lparr>lastLineCount := length ?L1, kids := k1\<rparr>)"
    unfolding a1_def by blast
  from readFile_wf[OF wf, of parse stringify getTime full] obtain tf kf where
    rF: "readFile parse stringify getTime full w0 =
           Some (aF\<lparr>lastLineCount := length (?L1 @ added), kids := kf\<rparr>, Some tf)"
    and gF: "getNodes getTime (aF\<lparr>lastLineCount := length (?L1 @ added)\<rparr>) =
           Some (tf, aF\<lparr>lastLineCount := length (?L1 @ added), kids := kf\<rparr>)"
    and wfF: "wf_watcher (aF\<lparr>lastLineCount := length (?L1 @ added), kids := kf\<rparr>)"
    unfolding aF_def app by blast
  define w1 where "w1 = a1\<lparr>lastLineCount := length ?L1, kids := k1\<rparr>"
  define wF where "wF = aF\<lparr>lastLineCount := length (?L1 @ added), kids := kf\<rparr>"
  have wfa1: "wf_watcher a1" unfolding a1_def by (rule fold_ingest_wf[OF wf])
  have wfaF: "wf_watcher aF" unfolding aF_def by (rule fold_ingest_wf[OF wf])
  have treeF: "map_option fst (getNodes getTime v) = Some tf"
    if "wf_watcher v" "nodes v = nodes aF" for v
  proof -
    have "map_option fst (getNodes getTime v) =
          map_option fst (getNodes getTime (aF\<lparr>lastLineCount := length (?L1 @ added)\<rparr>))"
      by (rule getNodes_tree_cong) (use that wfaF in \<open>simp_all add: wf_lastLineCount\<close>)
    with gF show ?thesis by simp
  qed
  have aF_eq: "aF = fst (fold ?I added (a1, False))"
  proof -
    obtain x b where xb: "fold ?I ?L1 (w0, False) = (x, b)"
      by (cases "fold ?I ?L1 (w0, False)")
    from fold_ingest_flag[of parse stringify added x b] xb show ?thesis
      by (simp add: aF_def a1_def)
  qed
  have sc: "same_core w1 a1" by (simp add: same_core_def w1_def)
  obtain a2 f2 where a2: "fold ?I added (w1, False) = (a2, f2)" by (cases "fold ?I added (w1, False)")
  from fold_ingest_core[OF sc, of parse stringify added False] a2 aF_eq
  have core2: "nodes a2 = nodes aF" "processedLines a2 = processedLines aF"
    by (simp_all add: same_core_def)
  have wfa2: "wf_watcher a2" using fold_ingest_wf[of w1 parse stringify added False] wf1 a2
    by (simp add: w1_def)
  have ll1: "lastLineCount w1 = length ?L1" by (simp add: w1_def)
  show ?thesis
  proof (cases "added = []")
    case True
    then have "readNewContent parse stringify getTime full w1 = Some (w1, None)"
      by (simp add: readNewContent_def app ll1)
    moreover from True have "aF = a1" by (simp add: aF_def a1_def)
    moreover have "map_option fst (getNodes getTime w1) = Some tf"
      by (rule treeF) (use wf1 \<open>aF = a1\<close> in \<open>simp_all add: w1_def\<close>)
    moreover have "t1 = tf"
      using treeF[of "a1\<lparr>lastLineCount := length ?L1\<rparr>"] wfa1 g1 \<open>aF = a1\<close>
      by (simp add: wf_lastLineCount)
    ultimately show ?thesis using r1 rF True by (simp add: w1_def)
  next
    case False
    then have gt: "\<not> length (file_lines full) \<le> lastLineCount w1" by (simp add: app ll1)
    have dr: "drop (lastLineCount w1) (file_lines full) = added" by (simp add: app ll1)
    let ?v2 = "a2\<lparr>lastLineCount := length (?L1 @ added)\<rparr>"
    have wfv2: "wf_watcher ?v2" using wfa2 by (simp add: wf_lastLineCount)
    show ?thesis
    proof (cases f2)
      case True
      from getNodes_wf[OF wfv2, of getTime] obtain t2 k2 where
        g2: "getNodes getTime ?v2 = Some (t2, ?v2\<lparr>kids := k2\<rparr>)"
        and wf2: "wf_watcher (?v2\<lparr>kids := k2\<rparr>)" by blast
      from treeF[OF wfv2] core2 g2 have t2: "t2 = tf" by simp
      have rn: "readNewContent parse stringify getTime full w1 = Some (?v2\<lparr>kids := k2\<rparr>, Some t2)"
        using gt dr a2 True g2 by (simp add: readNewContent_def Let_def app)
      have "map_option fst (getNodes getTime (?v2\<lparr>kids := k2\<rparr>)) = Some tf"
        by (rule treeF[OF wf2]) (simp add: core2)
      with r1 rF rn t2 core2 show ?thesis by (simp add: w1_def)
    next
      case False
      have rn: "readNewContent parse stringify getTime full w1 = Some (?v2, None)"
        using gt dr a2 False by (simp add: readNewContent_def Let_def app)
      from fold_ingest_no_new[of parse stringify added w1] a2 False
      have "nodes a2 = nodes w1" by simp
      with core2 have "nodes aF = nodes a1" by (simp add: w1_def)
      with treeF[of "a1\<lparr>lastLineCount := length ?L1\<rparr>"] wfa1 g1 have "t1 = tf"
        by (simp add: wf_lastLineCount)
      moreover have "map_option fst (getNodes getTime ?v2) = Some tf"
        by (rule treeF[OF wfv2]) (simp add: core2)
      ultimately show ?thesis using r1 rF rn core2 by (simp add: w1_def)
    qed
  qed
qed

theorem C6_monotonic_ingestion_witness:
  "wf_watcher init_watcher \<and>
   file_lines (line_user @ CHR 0x0A # line_user_b) = file_lines line_user @ file_lines line_user_b \<and>
   (\<exists>w1 t1 w2 e2 wa tf.
     readFile two_users_parse no_stringify log_time line_user init_watcher = Some (w1, Some t1) \<and>
     readNewContent two_users_parse no_stringify log_time (line_user @ CHR 0x0A # line_user_b) w1 =
       Some (w2, e2) \<and>
     readFile two_users_parse no_stringify log_time (line_user @ CHR 0x0A # line_user_b) init_watcher =
       Some (wa, Some tf) \<and>
     (case e2 of Some t2 \<Rightarrow> t2 | None \<Rightarrow> t1) = tf \<and>
     map_option fst (getNodes log_time w2) = Some tf \<and>
     nodes w2 = nodes wa \<and> processedLines w2 = processedLines wa \<and>
     lastLineCount w2 = lastLineCount wa)"
proof -
  have a: "wf_watcher init_watcher" by (simp add: wf_watcher_def init_watcher_def)
  have b: "file_lines (line_user @ CHR 0x0A # line_user_b) =
           file_lines line_user @ file_lines line_user_b" by (rule file_lines_append)
  from C6_monotonic_ingestion[OF a b, of two_users_parse no_stringify log_time] a b
  show ?thesis by blast
qed

section \<open>A write in flight\<close>

lemma hashLine_uuid:
  assumes "parse line = Some (JObj kvs)" "map_of kvs ''uuid'' = Some (JStr u)" "u \<noteq> []"
  shows "hashLine parse line = u"
  using assms by (simp add: hashLine_def Let_def)

lemma parse_line_user: "two_users_parse line_user = Some (user_entry ''u1'' ''2024-01-01T00:00:01Z'' ''Fix the bug'')"
  by code_simp
lemma parse_line_user_b: "two_users_parse line_user_b = Some (user_entry ''u3'' ''2024-01-01T00:00:03Z'' ''Run the tests'')"
  by code_simp

lemma hash_line_user: "hashLine two_users_parse line_user = ''u1''"
  by (rule hashLine_uuid[where parse = two_users_parse and line = line_user and u = "''u1''",
        OF parse_line_user[unfolded user_entry_def]]) simp_all
lemma hash_line_user_b: "hashLine two_users_parse line_user_b = ''u3''"
  by (rule hashLine_uuid[where parse = two_users_parse and line = line_user_b and u = "''u3''",
        OF parse_line_user_b[unfolded user_entry_def]]) simp_all

lemma ids_line_user: "map nid (line_nodes two_users_parse no_stringify line_user) = [''u1'']" by code_simp
lemma ids_line_user_b: "map nid (line_nodes two_users_parse no_stringify line_user_b) = [''u3'']" by code_simp
lemma lines_read_partial: "file_lines read_partial = [line_user, take 52 line_user_b]" by code_simp
lemma valid_line_user_b: "isValidJsonLine two_users_parse line_user_b" by code_simp


lemma lines_read_whole: "file_lines read_whole = [line_user, line_user_b]" by code_simp
lemma valid_line_user: "isValidJsonLine two_users_parse line_user" by code_simp
lemma invalid_partial: "\<not> isValidJsonLine two_users_parse (take 52 line_user_b)" by code_simp

lemma map_nid_fold_set_node:
  "map nid (fold set_node ns xs) =
     fold (\<lambda>i a. if i \<in> set a then a else a @ [i]) (map nid ns) (map nid xs)"
  by (induction ns arbitrary: xs) (simp_all add: map_nid_set_node)

lemma ingest_partial_read:
  "map nid (nodes (fst (fold (ingest_line two_users_parse no_stringify) (file_lines read_partial)
                     (init_watcher, False)))) = [''u1''] \<and>
   processedLines (fst (fold (ingest_line two_users_parse no_stringify) (file_lines read_partial)
                     (init_watcher, False))) = {''u1''}"
  by (simp add: lines_read_partial ingest_line_eq valid_line_user invalid_partial hash_line_user
        fold_upsert_fields map_nid_fold_set_node ids_line_user init_watcher_def)

lemma ingest_whole_after:
  assumes "map nid (nodes w) = [''u1'']" "processedLines w = {''u1''}"
  shows "map nid (nodes (fst (fold (ingest_line two_users_parse no_stringify) (file_lines read_whole)
                     (w, False)))) = [''u1'', ''u3'']"
  using assms
  by (simp add: lines_read_whole ingest_line_eq valid_line_user valid_line_user_b hash_line_user
        hash_line_user_b fold_upsert_fields map_nid_fold_set_node ids_line_user_b)

text \<open>
  C2, which the code does not meet. The first read finds the file with one whole line
  and the first part of a second line, which fails validation; the second read finds
  the second line whole, on the same number of lines. The tracker counted the partial
  line on the first read, so that the second read processes nothing: its final registry
  holds the node of the first line only. Fingerprint-based dedup over every line of
  both reads, with no skipping by line index, ends with the nodes of both lines.
\<close>

theorem C2_partial_write_lost:
  "file_lines read_partial = [line_user, take 52 line_user_b] \<and>
   file_lines read_whole = [line_user, line_user_b] \<and>
   \<not> isValidJsonLine two_users_parse (take 52 line_user_b) \<and>
   isValidJsonLine two_users_parse line_user_b \<and>
   map_option (map nid \<circ> nodes)
     (watch_reads two_users_parse no_stringify log_time read_partial [read_whole] init_watcher) =
     Some [''u1''] \<and>
   map nid (nodes (dedup_reads two_users_parse no_stringify [read_partial, read_whole] init_watcher)) =
     [''u1'', ''u3'']"
proof -
  let ?a = "fst (fold (ingest_line two_users_parse no_stringify) (file_lines read_partial)
                     (init_watcher, False))"
  have wf0: "wf_watcher init_watcher" by (simp add: wf_watcher_def init_watcher_def)
  from readFile_wf[OF wf0, of two_users_parse no_stringify log_time read_partial]
  obtain t k where
    r: "readFile two_users_parse no_stringify log_time read_partial init_watcher =
          Some (?a\<lparr>lastLineCount := length (file_lines read_partial), kids := k\<rparr>, Some t)"
    by blast
  have n: "readNewContent two_users_parse no_stringify log_time read_whole
             (?a\<lparr>lastLineCount := length (file_lines read_partial), kids := k\<rparr>) =
           Some (?a\<lparr>lastLineCount := length (file_lines read_partial), kids := k\<rparr>, None)"
    by (simp add: readNewContent_def lines_read_whole lines_read_partial)
  have "watch_reads two_users_parse no_stringify log_time read_partial [read_whole] init_watcher =
          Some (?a\<lparr>lastLineCount := length (file_lines read_partial), kids := k\<rparr>)"
    by (simp add: watch_reads_def r n)
  then have tracker: "map_option (map nid \<circ> nodes)
     (watch_reads two_users_parse no_stringify log_time read_partial [read_whole] init_watcher) =
     Some [''u1'']"
    by (simp add: ingest_partial_read)
  have "dedup_reads two_users_parse no_stringify [read_partial, read_whole] init_watcher =
          fst (fold (ingest_line two_users_parse no_stringify) (file_lines read_whole) (?a, False))"
    by (simp add: dedup_reads_def dedup_read_def)
  with ingest_whole_after[of ?a] ingest_partial_read
  have reference: "map nid (nodes (dedup_reads two_users_parse no_stringify [read_partial, read_whole]
           init_watcher)) = [''u1'', ''u3'']" by simp
  from tracker reference lines_read_partial lines_read_whole invalid_partial valid_line_user_b
  show ?thesis by blast
qed

theorem C2_partial_write_lost_witness:
  "map_option (map nid \<circ> nodes)
     (watch_reads two_users_parse no_stringify log_time read_partial [read_whole] init_watcher) \<noteq>
   Some (map nid (nodes (dedup_reads two_users_parse no_stringify [read_partial, read_whole]
           init_watcher)))"
proof -
  from C2_partial_write_lost
  have a: "map_option (map nid \<circ> nodes)
     (watch_reads two_users_parse no_stringify log_time read_partial [read_whole] init_watcher) =
     Some [''u1'']"
    and b: "map nid (nodes (dedup_reads two_users_parse no_stringify [read_partial, read_whole]
           init_watcher)) = [''u1'', ''u3'']" by blast+
  show ?thesis unfolding a b by simp
qed

end
